theory Spec2Isabelle
  imports Complex_Main "HOL-Library.Extended_Nat"
begin

unbundle bit_operations_syntax

section \<open>Tile indices and cache keys\<close>

text \<open>
  A tile index is the object \<^verbatim>\<open>{x, y, z}\<close>. The fields are named \<open>tx\<close>, \<open>ty\<close>, \<open>tz\<close>
  so that the letters stay free for variables.
\<close>

record TileIndex =
  tx :: int
  ty :: int
  tz :: int

text \<open>
  \<^verbatim>\<open>getTileCacheKey\<close> renders \<^verbatim>\<open>`${index.x}-${index.y}-${index.z}`\<close>. The numbers are
  written in decimal, a negative one with a leading minus sign.
\<close>

definition digit_char :: "nat \<Rightarrow> char" where
  "digit_char d = char_of (48 + d)"

function digits :: "nat \<Rightarrow> string" where
  "digits n = (if n < 10 then [digit_char n] else digits (n div 10) @ [digit_char (n mod 10)])"
  by pat_completeness auto
termination
  by (relation "measure id") auto

declare digits.simps [simp del]

definition show_int :: "int \<Rightarrow> string" where
  "show_int i = (if i < 0 then CHR ''-'' # digits (nat (- i)) else digits (nat i))"

definition getTileCacheKey :: "TileIndex \<Rightarrow> string" where
  "getTileCacheKey i = show_int (tx i) @ ''-'' @ show_int (ty i) @ ''-'' @ show_int (tz i)"

text \<open>
  The key of an object without \<^verbatim>\<open>x\<close>, \<^verbatim>\<open>y\<close> and \<^verbatim>\<open>z\<close> properties, such as the
  \<^verbatim>\<open>{index: tile.index}\<close> that \<^verbatim>\<open>update\<close> passes to \<^verbatim>\<open>_getTile\<close> in its reload branch.
\<close>

definition undefinedCacheKey :: string where
  "undefinedCacheKey = ''undefined-undefined-undefined''"

definition getTileZoom :: "TileIndex \<Rightarrow> int" where
  "getTileZoom i = tz i"

text \<open>\<^verbatim>\<open>Math.floor(x / 2)\<close> on an integer is \<open>div\<close>, which rounds down in HOL.\<close>

definition getParentIndex :: "TileIndex \<Rightarrow> TileIndex" where
  "getParentIndex i = i\<lparr>tx := tx i div 2, ty := ty i div 2, tz := tz i - 1\<rparr>"

section \<open>Tile headers\<close>

text \<open>
  Tile objects live in a store and are named by their address; \<^verbatim>\<open>parent\<close>, \<^verbatim>\<open>children\<close>,
  the cache and the selection hold addresses, so that two references to one tile see
  the same flags, as in the source.
\<close>

type_synonym addr = nat

datatype LoadState = Unloaded | Loading | Loaded | Errored

type_synonym Payload = string

text \<open>
  Modelled from the spec: the class \<^verbatim>\<open>Tile2DHeader\<close> (file \<^verbatim>\<open>tile-2d-header\<close>) is not part of
  the sources. The fields \<open>index\<close>, \<open>isVisible\<close>, \<open>isSelected\<close>, \<open>parent\<close>, \<open>children\<close>,
  \<open>content\<close>, \<open>state\<close> and \<open>zoom\<close> are the ones the tileset reads and writes; \<open>load_state\<close>,
  \<open>needs_reload\<close> and \<open>byte_length\<close> are the spec's. An unset \<^verbatim>\<open>state\<close> is 0, which the
  bit operations of the source read the same way.
\<close>

record Tile2DHeader =
  index :: TileIndex
  isVisible :: bool
  isSelected :: bool
  parent :: "addr option"
  children :: "addr list"
  content :: "Payload option"
  state :: nat
  zoom :: int
  load_state :: LoadState
  needs_reload :: bool
  byte_length :: nat

type_synonym store = "addr \<Rightarrow> Tile2DHeader"

text \<open>Modelled from the spec: the constructor \<^verbatim>\<open>new Tile2DHeader(index)\<close>.\<close>

definition newTile2DHeader :: "TileIndex \<Rightarrow> Tile2DHeader" where
  "newTile2DHeader i =
     \<lparr>index = i, isVisible = False, isSelected = False, parent = None, children = [],
      content = None, state = 0, zoom = 0, load_state = Unloaded, needs_reload = False,
      byte_length = 0\<rparr>"

text \<open>Modelled from the spec: the getters \<^verbatim>\<open>isLoaded\<close>, \<^verbatim>\<open>isLoading\<close>, \<^verbatim>\<open>needsReload\<close>
  and \<^verbatim>\<open>byteLength\<close> of the absent class read the load state, the reload flag and the
  payload size.\<close>

definition isLoaded :: "Tile2DHeader \<Rightarrow> bool" where
  "isLoaded t = (load_state t = Loaded)"

definition isLoading :: "Tile2DHeader \<Rightarrow> bool" where
  "isLoading t = (load_state t = Loading)"

definition needsReload :: "Tile2DHeader \<Rightarrow> bool" where
  "needsReload t = needs_reload t"

definition byteLength :: "Tile2DHeader \<Rightarrow> nat" where
  "byteLength t = byte_length t"

text \<open>Modelled from the spec: \<^verbatim>\<open>abort\<close> cancels a running load and is a no-op on a settled
  tile; it calls no callback.\<close>

definition abort :: "Tile2DHeader \<Rightarrow> Tile2DHeader" where
  "abort t = (if load_state t = Loading then t\<lparr>load_state := Unloaded\<rparr> else t)"

text \<open>Modelled from the spec: \<^verbatim>\<open>setNeedsReload\<close> marks the tile for a fresh load and keeps
  its content.\<close>

definition setNeedsReload :: "Tile2DHeader \<Rightarrow> Tile2DHeader" where
  "setNeedsReload t = t\<lparr>needs_reload := True\<rparr>"

text \<open>Modelled from the spec: \<^verbatim>\<open>loadData\<close> begins loading at once and serves the pending
  reload; the content stays until the replacement arrives.\<close>

definition loadData :: "Tile2DHeader \<Rightarrow> Tile2DHeader" where
  "loadData t = t\<lparr>load_state := Loading, needs_reload := False\<rparr>"

text \<open>The test \<^verbatim>\<open>tile.isLoaded || tile.content\<close> of the placeholder searches.\<close>

definition hasContent :: "Tile2DHeader \<Rightarrow> bool" where
  "hasContent t = (isLoaded t \<or> content t \<noteq> None)"

section \<open>Options and the tileset\<close>

text \<open>A JavaScript number: a finite value, or one of the three non-finite ones. A finite
  double is a real number, and \<^verbatim>\<open>Math.floor\<close> and \<^verbatim>\<open>Math.ceil\<close> of it are exact.\<close>

datatype jsnumber = Num real | NaN | PosInfinity | NegInfinity

text \<open>\<^verbatim>\<open>Number.isFinite\<close>; \<open>None\<close> is \<^verbatim>\<open>undefined\<close>.\<close>

fun isFinite :: "jsnumber option \<Rightarrow> bool" where
  "isFinite (Some (Num r)) = True"
| "isFinite v = False"

datatype RefinementStrategy = STRATEGY_NEVER | STRATEGY_REPLACE | STRATEGY_DEFAULT

text \<open>
  The options the tileset reads. Counts and sizes are natural numbers and \<open>None\<close> is an
  absent option; a strategy given as a function of the caller's is outside the model.
\<close>

record Tileset2DProps =
  maxCacheSize :: "nat option"
  maxCacheByteSize :: "nat option"
  refinementStrategy :: "RefinementStrategy option"
  maxZoom :: "jsnumber option"
  minZoom :: "jsnumber option"
  maxRequests :: int

type_synonym Viewport = nat
type_synonym Matrix4 = nat

text \<open>
  The tileset. \<open>cache\<close> is the \<^verbatim>\<open>Map\<close> in insertion order; \<open>priv_maxZoom\<close> and
  \<open>priv_minZoom\<close> are the private \<^verbatim>\<open>_maxZoom\<close> and \<^verbatim>\<open>_minZoom\<close>. A viewport and a model
  matrix are only compared with \<^verbatim>\<open>equals\<close>, so each is a number naming its value.
  \<open>heap\<close> is the tile store, \<open>nextAddr\<close> the first unused address, and \<open>unloadLog\<close> and
  \<open>loadLog\<close> record the calls of the host's \<^verbatim>\<open>onTileUnload\<close> and \<^verbatim>\<open>onTileLoad\<close>.
\<close>

record Tileset2D =
  opts :: Tileset2DProps
  cache :: "(string \<times> addr) list"
  dirty :: bool
  tiles :: "addr list"
  cacheByteSize :: int
  viewport :: "Viewport option"
  selectedTiles :: "addr list option"
  frameNumber :: nat
  modelMatrix :: Matrix4
  priv_maxZoom :: "int option"
  priv_minZoom :: "int option"
  heap :: store
  nextAddr :: addr
  unloadLog :: "addr list"
  loadLog :: "addr list"

text \<open>\<^verbatim>\<open>setOptions\<close>: the options are taken over, and a zoom bound is updated only from a
  finite number.\<close>

definition setOptions :: "Tileset2DProps \<Rightarrow> Tileset2D \<Rightarrow> Tileset2D" where
  "setOptions new_opts s =
     (let s1 = s\<lparr>opts := new_opts\<rparr>;
          s2 = (case maxZoom new_opts of
                  Some (Num r) \<Rightarrow> s1\<lparr>priv_maxZoom := Some \<lfloor>r\<rfloor>\<rparr>
                | _ \<Rightarrow> s1)
      in (case minZoom new_opts of
            Some (Num r) \<Rightarrow> s2\<lparr>priv_minZoom := Some \<lceil>r\<rceil>\<rparr>
          | _ \<Rightarrow> s2))"

text \<open>The constructor: empty cache, no viewport, no selection, identity model matrix
  (named 0), then \<open>setOptions\<close>.\<close>

definition identityMatrix :: Matrix4 where
  "identityMatrix = 0"

definition newTileset2D :: "Tileset2DProps \<Rightarrow> Tileset2D" where
  "newTileset2D props =
     setOptions props
       \<lparr>opts = props, cache = [], dirty = False, tiles = [], cacheByteSize = 0,
        viewport = None, selectedTiles = None, frameNumber = 0,
        modelMatrix = identityMatrix, priv_maxZoom = None, priv_minZoom = None,
        heap = (\<lambda>a. newTile2DHeader \<lparr>tx = 0, ty = 0, tz = 0\<rparr>), nextAddr = 0,
        unloadLog = [], loadLog = []\<rparr>"

text \<open>What a call can end in besides a result: a failed \<^verbatim>\<open>assert\<close>, a property access on
  \<^verbatim>\<open>undefined\<close>, or a walk over the tile links that was cut off for lack of fuel.\<close>

datatype error = AssertionError | TypeError | OutOfFuel

definition updTile :: "addr \<Rightarrow> (Tile2DHeader \<Rightarrow> Tile2DHeader) \<Rightarrow> store \<Rightarrow> store" where
  "updTile a f h = h(a := f (h a))"

definition truthy :: "nat option \<Rightarrow> bool" where
  "truthy v = (case v of None \<Rightarrow> False | Some n \<Rightarrow> n \<noteq> 0)"

section \<open>Looking tiles up and creating them\<close>

text \<open>The part of \<^verbatim>\<open>_getTile\<close> that runs when nothing is created: the lookup under the
  key, and a fresh load of a tile found with \<^verbatim>\<open>needsReload\<close>.\<close>

definition getTileByKey :: "string \<Rightarrow> Tileset2D \<Rightarrow> Tileset2D \<times> addr option" where
  "getTileByKey cacheKey s =
     (case map_of (cache s) cacheKey of
        None \<Rightarrow> (s, None)
      | Some a \<Rightarrow>
          (if needsReload (heap s a) then s\<lparr>heap := updTile a loadData (heap s)\<rparr> else s, Some a))"

text \<open>\<^verbatim>\<open>_getTile(index, create)\<close>. A new tile gets the next address, its zoom, an entry at
  the end of the cache, and starts loading; the cache becomes dirty. (The bounding box
  of \<^verbatim>\<open>getTileMetadata\<close> is not modelled.)\<close>

definition getTile :: "TileIndex \<Rightarrow> bool \<Rightarrow> Tileset2D \<Rightarrow> Tileset2D \<times> addr option" where
  "getTile i create s =
     (let cacheKey = getTileCacheKey i in
      if map_of (cache s) cacheKey = None \<and> create then
        (let a = nextAddr s;
             t = (newTile2DHeader i)\<lparr>zoom := getTileZoom i\<rparr>
         in (s\<lparr>heap := (heap s)(a := loadData t), nextAddr := Suc a,
               cache := cache s @ [(cacheKey, a)], dirty := True\<rparr>, Some a))
      else getTileByKey cacheKey s)"

text \<open>The loop of \<^verbatim>\<open>_getNearestAncestor\<close>: go to the parent index while the zoom is above
  the minimum, and stop at the first index found in the cache.\<close>

function ancestorWalk :: "int \<Rightarrow> TileIndex \<Rightarrow> Tileset2D \<Rightarrow> Tileset2D \<times> addr option" where
  "ancestorWalk mz i s =
     (if getTileZoom i > mz then
        (case getTile (getParentIndex i) False s of
           (s1, Some p) \<Rightarrow> (s1, Some p)
         | (s1, None) \<Rightarrow> ancestorWalk mz (getParentIndex i) s1)
      else (s, None))"
  by pat_completeness auto
termination
  by (relation "measure (\<lambda>(mz, i, s). nat (tz i - mz))")
     (auto simp: getTileZoom_def getParentIndex_def)

declare ancestorWalk.simps [simp del]

definition getNearestAncestor :: "addr \<Rightarrow> Tileset2D \<Rightarrow> Tileset2D \<times> addr option" where
  "getNearestAncestor a s =
     ancestorWalk (case priv_minZoom s of None \<Rightarrow> 0 | Some m \<Rightarrow> m) (index (heap s a)) s"

section \<open>The tile tree\<close>

definition resetLinks :: "addr \<Rightarrow> store \<Rightarrow> store" where
  "resetLinks a h = updTile a (\<lambda>t. t\<lparr>parent := None, children := []\<rparr>) h"

text \<open>The second loop of \<^verbatim>\<open>_rebuildTree\<close>.\<close>

fun linkTiles :: "addr list \<Rightarrow> Tileset2D \<Rightarrow> Tileset2D" where
  "linkTiles [] s = s"
| "linkTiles (a # as) s =
     (case getNearestAncestor a s of
        (s1, p) \<Rightarrow>
          (let h1 = updTile a (\<lambda>t. t\<lparr>parent := p\<rparr>) (heap s1);
               h2 = (case p of
                       None \<Rightarrow> h1
                     | Some q \<Rightarrow> updTile q (\<lambda>t. t\<lparr>children := children t @ [a]\<rparr>) h1)
           in linkTiles as (s1\<lparr>heap := h2\<rparr>)))"

definition rebuildTree :: "Tileset2D \<Rightarrow> Tileset2D" where
  "rebuildTree s =
     (let vals = map snd (cache s)
      in linkTiles vals (s\<lparr>heap := fold resetLinks vals (heap s)\<rparr>))"

section \<open>Refinement strategies\<close>

definition TILE_STATE_VISITED :: nat where
  "TILE_STATE_VISITED = 1"

definition TILE_STATE_VISIBLE :: nat where
  "TILE_STATE_VISIBLE = 2"

text \<open>\<^verbatim>\<open>getPlaceholderInAncestors\<close>: the walk up the parent links. The first argument bounds
  the number of tiles looked at; a walk that needs more ends in \<open>None\<close>.\<close>

fun getPlaceholderInAncestors :: "nat \<Rightarrow> store \<Rightarrow> addr option \<Rightarrow> (store \<times> bool) option" where
  "getPlaceholderInAncestors n h None = Some (h, False)"
| "getPlaceholderInAncestors 0 h (Some a) = None"
| "getPlaceholderInAncestors (Suc n) h (Some a) =
     (if hasContent (h a) then
        Some (updTile a (\<lambda>t. t\<lparr>state := state t OR TILE_STATE_VISIBLE\<rparr>) h, True)
      else getPlaceholderInAncestors n h (parent (h a)))"

text \<open>\<^verbatim>\<open>getPlaceholderInChildren\<close>, as the loop over a list of children. The first argument
  bounds the depth of the recursion.\<close>

fun getPlaceholderInChildren :: "nat \<Rightarrow> store \<Rightarrow> addr list \<Rightarrow> store option" where
  "getPlaceholderInChildren n h [] = Some h"
| "getPlaceholderInChildren 0 h (c # cs) = None"
| "getPlaceholderInChildren (Suc n) h (c # cs) =
     (if hasContent (h c) then
        getPlaceholderInChildren (Suc n)
          (updTile c (\<lambda>t. t\<lparr>state := state t OR TILE_STATE_VISIBLE\<rparr>) h) cs
      else
        (case getPlaceholderInChildren n h (children (h c)) of
           None \<Rightarrow> None
         | Some h1 \<Rightarrow> getPlaceholderInChildren (Suc n) h1 cs))"

definition clearState :: "addr \<Rightarrow> store \<Rightarrow> store" where
  "clearState a h = updTile a (\<lambda>t. t\<lparr>state := 0\<rparr>) h"

definition setVisibleFromState :: "addr \<Rightarrow> store \<Rightarrow> store" where
  "setVisibleFromState a h =
     updTile a (\<lambda>t. t\<lparr>isVisible := (state t AND TILE_STATE_VISIBLE \<noteq> 0)\<rparr>) h"

text \<open>The second loop of \<^verbatim>\<open>updateTileStateDefault\<close>.\<close>

fun placeholdersDefault :: "nat \<Rightarrow> addr list \<Rightarrow> store \<Rightarrow> store option" where
  "placeholdersDefault n [] h = Some h"
| "placeholdersDefault n (a # as) h =
     (if isSelected (h a) then
        (case getPlaceholderInAncestors n h (Some a) of
           None \<Rightarrow> None
         | Some (h1, found) \<Rightarrow>
             (if found then placeholdersDefault n as h1
              else
                (case getPlaceholderInChildren n h1 (children (h1 a)) of
                   None \<Rightarrow> None
                 | Some h2 \<Rightarrow> placeholdersDefault n as h2)))
      else placeholdersDefault n as h)"

definition updateTileStateDefault :: "nat \<Rightarrow> addr list \<Rightarrow> store \<Rightarrow> store option" where
  "updateTileStateDefault n allTiles h =
     (case placeholdersDefault n allTiles (fold clearState allTiles h) of
        None \<Rightarrow> None
      | Some h1 \<Rightarrow> Some (fold setVisibleFromState allTiles h1))"

text \<open>The second loop of \<^verbatim>\<open>updateTileStateReplace\<close>.\<close>

fun placeholdersReplace :: "nat \<Rightarrow> addr list \<Rightarrow> store \<Rightarrow> store option" where
  "placeholdersReplace n [] h = Some h"
| "placeholdersReplace n (a # as) h =
     (if isSelected (h a) then
        (case getPlaceholderInAncestors n h (Some a) of
           None \<Rightarrow> None
         | Some (h1, found) \<Rightarrow> placeholdersReplace n as h1)
      else placeholdersReplace n as h)"

definition markVisited :: "addr \<Rightarrow> store \<Rightarrow> store" where
  "markVisited c h = updTile c (\<lambda>t. t\<lparr>state := TILE_STATE_VISITED\<rparr>) h"

text \<open>The loop over the sorted tiles. A \<^verbatim>\<open>children\<close> array is always truthy.\<close>

fun refineSorted :: "nat \<Rightarrow> addr list \<Rightarrow> store \<Rightarrow> store option" where
  "refineSorted n [] h = Some h"
| "refineSorted n (a # as) h =
     (let h1 = setVisibleFromState a h in
      if isVisible (h1 a) \<or> state (h1 a) AND TILE_STATE_VISITED \<noteq> 0 then
        refineSorted n as (fold markVisited (children (h1 a)) h1)
      else if isSelected (h1 a) then
        (case getPlaceholderInChildren n h1 (children (h1 a)) of
           None \<Rightarrow> None
         | Some h2 \<Rightarrow> refineSorted n as h2)
      else refineSorted n as h1)"

text \<open>\<^verbatim>\<open>updateTileStateReplace\<close>. \<^verbatim>\<open>sort\<close> with the comparison of zooms is stable, as
  \<open>sort_key\<close> is.\<close>

definition updateTileStateReplace :: "nat \<Rightarrow> addr list \<Rightarrow> store \<Rightarrow> store option" where
  "updateTileStateReplace n allTiles h =
     (case placeholdersReplace n allTiles (fold clearState allTiles h) of
        None \<Rightarrow> None
      | Some h1 \<Rightarrow> refineSorted n (sort_key (\<lambda>a. zoom (h1 a)) allTiles) h1)"

text \<open>The table \<^verbatim>\<open>STRATEGIES\<close>.\<close>

fun STRATEGIES :: "RefinementStrategy \<Rightarrow> nat \<Rightarrow> addr list \<Rightarrow> store \<Rightarrow> store option" where
  "STRATEGIES STRATEGY_DEFAULT n allTiles h = updateTileStateDefault n allTiles h"
| "STRATEGIES STRATEGY_REPLACE n allTiles h = updateTileStateReplace n allTiles h"
| "STRATEGIES STRATEGY_NEVER n allTiles h = Some h"

definition resetFlags :: "addr \<Rightarrow> store \<Rightarrow> store" where
  "resetFlags a h = updTile a (\<lambda>t. t\<lparr>isSelected := False, isVisible := False\<rparr>) h"

definition selectFlags :: "addr \<Rightarrow> store \<Rightarrow> store" where
  "selectFlags a h = updTile a (\<lambda>t. t\<lparr>isSelected := True, isVisible := True\<rparr>) h"

text \<open>\<^verbatim>\<open>updateTileStates\<close>: returns the tileset and whether a visibility changed. The first
  argument is the fuel handed to the strategy.\<close>

definition updateTileStates :: "nat \<Rightarrow> Tileset2D \<Rightarrow> error + (Tileset2D \<times> bool)" where
  "updateTileStates n s =
     (case selectedTiles s of
        None \<Rightarrow> Inl AssertionError
      | Some sel \<Rightarrow>
          (let refinement = (case refinementStrategy (opts s) of
                               None \<Rightarrow> STRATEGY_DEFAULT
                             | Some r \<Rightarrow> r);
               vals = map snd (cache s);
               visibilities = map (\<lambda>a. isVisible (heap s a)) vals;
               h1 = fold resetFlags vals (heap s);
               h2 = fold selectFlags sel h1
           in (case STRATEGIES refinement n vals h2 of
                 None \<Rightarrow> Inl OutOfFuel
               | Some h3 \<Rightarrow>
                   Inr (s\<lparr>heap := h3\<rparr>, visibilities \<noteq> map (\<lambda>a. isVisible (h3 a)) vals))))"

section \<open>Pruning and eviction\<close>

text \<open>The \<^verbatim>\<open>while\<close> loop of \<^verbatim>\<open>_pruneRequests\<close>: \<^verbatim>\<open>shift\<close> takes the first candidate.\<close>

fun abortLoop :: "int \<Rightarrow> int \<Rightarrow> addr list \<Rightarrow> store \<Rightarrow> store" where
  "abortLoop mr ongoingRequestCount [] h = h"
| "abortLoop mr ongoingRequestCount (t # ts) h =
     (if mr > 0 \<and> ongoingRequestCount > mr then
        abortLoop mr (ongoingRequestCount - 1) ts (updTile t abort h)
      else h)"

definition abortCandidates :: "Tileset2D \<Rightarrow> addr list" where
  "abortCandidates s =
     filter (\<lambda>a. isLoading (heap s a) \<and> \<not> isSelected (heap s a) \<and> \<not> isVisible (heap s a))
       (map snd (cache s))"

definition ongoingRequestCount :: "Tileset2D \<Rightarrow> int" where
  "ongoingRequestCount s = int (length (filter (\<lambda>a. isLoading (heap s a)) (map snd (cache s))))"

definition pruneRequests :: "Tileset2D \<Rightarrow> Tileset2D" where
  "pruneRequests s =
     s\<lparr>heap := abortLoop (maxRequests (opts s)) (ongoingRequestCount s) (abortCandidates s) (heap s)\<rparr>"

text \<open>The limits of \<^verbatim>\<open>_resizeCache\<close>; \<open>\<infinity>\<close> is \<^verbatim>\<open>Infinity\<close>.\<close>

definition effMaxCacheSize :: "Tileset2DProps \<Rightarrow> nat \<Rightarrow> enat" where
  "effMaxCacheSize props nsel =
     (if truthy (maxCacheSize props) then enat (the (maxCacheSize props))
      else if truthy (maxCacheByteSize props) then \<infinity>
      else enat (5 * nsel))"

definition effMaxCacheByteSize :: "Tileset2DProps \<Rightarrow> enat" where
  "effMaxCacheByteSize props =
     (if truthy (maxCacheByteSize props) then enat (the (maxCacheByteSize props)) else \<infinity>)"

definition exceeds :: "int \<Rightarrow> enat \<Rightarrow> bool" where
  "exceeds v bound = (case bound of enat n \<Rightarrow> v > int n | \<infinity> \<Rightarrow> False)"

definition withinLimits :: "enat \<Rightarrow> enat \<Rightarrow> Tileset2D \<Rightarrow> bool" where
  "withinLimits maxSize maxBytes s =
     (enat (length (cache s)) \<le> maxSize \<and> \<not> exceeds (cacheByteSize s) maxBytes)"

definition cacheDelete :: "string \<Rightarrow> (string \<times> addr) list \<Rightarrow> (string \<times> addr) list" where
  "cacheDelete k c = filter (\<lambda>e. fst e \<noteq> k) c"

text \<open>The eviction scan: the \<^verbatim>\<open>for\<close> loop of \<^verbatim>\<open>_resizeCache\<close> over the entries of the
  cache. Deleting the current entry of a \<^verbatim>\<open>Map\<close> does not disturb the iteration, so the
  loop runs over the entries the cache had at its start.\<close>

fun evictScan :: "enat \<Rightarrow> enat \<Rightarrow> (string \<times> addr) list \<Rightarrow> Tileset2D \<Rightarrow> Tileset2D" where
  "evictScan maxSize maxBytes [] s = s"
| "evictScan maxSize maxBytes ((cacheKey, a) # rest) s =
     (let s1 = (if \<not> isVisible (heap s a) then
                  s\<lparr>cacheByteSize :=
                      cacheByteSize s -
                        (if truthy (maxCacheByteSize (opts s)) then int (byteLength (heap s a)) else 0),
                    cache := cacheDelete cacheKey (cache s),
                    unloadLog := unloadLog s @ [a]\<rparr>
                else s)
      in if withinLimits maxSize maxBytes s1 then s1
         else evictScan maxSize maxBytes rest s1)"

definition resizeCache :: "Tileset2D \<Rightarrow> error + Tileset2D" where
  "resizeCache s =
     (case selectedTiles s of
        None \<Rightarrow> Inl AssertionError
      | Some sel \<Rightarrow>
          (let maxSize = effMaxCacheSize (opts s) (length sel);
               maxBytes = effMaxCacheByteSize (opts s);
               overflown = (enat (length (cache s)) > maxSize \<or> exceeds (cacheByteSize s) maxBytes);
               s1 = (if overflown then
                       (rebuildTree (evictScan maxSize maxBytes (cache s) s))\<lparr>dirty := True\<rparr>
                     else s);
               s2 = (if dirty s1 then
                       s1\<lparr>tiles := sort_key (\<lambda>a. zoom (heap s1 a)) (map snd (cache s1)),
                          dirty := False\<rparr>
                     else s1)
           in Inr s2))"

section \<open>The public operations\<close>

text \<open>\<^verbatim>\<open>tileIndices.map(index => this._getTile(index, true))\<close>.\<close>

fun selectTiles :: "TileIndex list \<Rightarrow> Tileset2D \<Rightarrow> Tileset2D \<times> addr option list" where
  "selectTiles [] s = (s, [])"
| "selectTiles (i # is) s =
     (case getTile i True s of
        (s1, t) \<Rightarrow> (case selectTiles is s1 of (s2, ts) \<Rightarrow> (s2, t # ts)))"

text \<open>\<^verbatim>\<open>this._selectedTiles.map(tile => this._getTile({index: tile.index}))\<close>: the argument
  has no \<^verbatim>\<open>x\<close>, \<^verbatim>\<open>y\<close>, \<^verbatim>\<open>z\<close>, so every lookup is under \<open>undefinedCacheKey\<close>.\<close>

fun reselectTiles :: "addr list \<Rightarrow> Tileset2D \<Rightarrow> Tileset2D \<times> addr option list" where
  "reselectTiles [] s = (s, [])"
| "reselectTiles (a # as) s =
     (case getTileByKey undefinedCacheKey s of
        (s1, t) \<Rightarrow> (case reselectTiles as s1 of (s2, ts) \<Rightarrow> (s2, t # ts)))"

text \<open>The getter \<^verbatim>\<open>needsReload\<close> of the tileset.\<close>

definition tilesetNeedsReload :: "Tileset2D \<Rightarrow> bool" where
  "tilesetNeedsReload s =
     (case selectedTiles s of
        None \<Rightarrow> False
      | Some sel \<Rightarrow> (\<exists>a \<in> set sel. needsReload (heap s a)))"

text \<open>The index generator \<^verbatim>\<open>getTileIndices\<close> is external: it is a parameter, called with
  the viewport, the two zoom bounds, the z range and the model matrix.\<close>

type_synonym ZRange = "real \<times> real"

type_synonym IndexGenerator =
  "Viewport \<Rightarrow> int option \<Rightarrow> int option \<Rightarrow> ZRange option \<Rightarrow> Matrix4 \<Rightarrow> TileIndex list"

text \<open>The first part of \<^verbatim>\<open>update\<close>: the new selection. The result carries the list the
  source stores in \<^verbatim>\<open>_selectedTiles\<close>, whose entries may be \<^verbatim>\<open>undefined\<close>.\<close>

definition updateSelection ::
  "IndexGenerator \<Rightarrow> Viewport \<Rightarrow> ZRange option \<Rightarrow> Matrix4 option \<Rightarrow> Tileset2D
     \<Rightarrow> Tileset2D \<times> addr option list option" where
  "updateSelection gen vp zRange mm s =
     (let modelMatrixAsMatrix4 = (case mm of None \<Rightarrow> identityMatrix | Some m \<Rightarrow> m);
          isModelMatrixNew = (modelMatrixAsMatrix4 \<noteq> modelMatrix s)
      in if viewport s \<noteq> Some vp \<or> isModelMatrixNew then
           (let s1 = s\<lparr>modelMatrix := modelMatrixAsMatrix4, viewport := Some vp\<rparr>;
                tileIndices = gen vp (priv_maxZoom s1) (priv_minZoom s1) zRange (modelMatrix s1)
            in (case selectTiles tileIndices s1 of
                  (s2, sel) \<Rightarrow> (if dirty s2 then rebuildTree s2 else s2, Some sel)))
         else if tilesetNeedsReload s then
           (case reselectTiles (the (selectedTiles s)) s of (s2, sel) \<Rightarrow> (s2, Some sel))
         else (s, map_option (map Some) (selectedTiles s)))"

text \<open>\<^verbatim>\<open>update\<close>. An \<^verbatim>\<open>undefined\<close> entry of the selection makes \<^verbatim>\<open>updateTileStates\<close> raise a
  TypeError at \<^verbatim>\<open>tile.isSelected = true\<close>. The result is the tileset and the frame
  number returned.\<close>

definition update ::
  "nat \<Rightarrow> IndexGenerator \<Rightarrow> Viewport \<Rightarrow> ZRange option \<Rightarrow> Matrix4 option \<Rightarrow> Tileset2D
     \<Rightarrow> error + (Tileset2D \<times> nat)" where
  "update n gen vp zRange mm s =
     (case updateSelection gen vp zRange mm s of
        (s1, None) \<Rightarrow> Inl AssertionError
      | (s1, Some osel) \<Rightarrow>
          (case those osel of
             None \<Rightarrow> Inl TypeError
           | Some sel \<Rightarrow>
               (case updateTileStates n (s1\<lparr>selectedTiles := Some sel\<rparr>) of
                  Inl e \<Rightarrow> Inl e
                | Inr (s2, changed) \<Rightarrow>
                    (let s3 = pruneRequests s2 in
                     case (if dirty s3 then resizeCache s3 else Inr s3) of
                       Inl e \<Rightarrow> Inl e
                     | Inr s4 \<Rightarrow>
                         (let s5 = (if changed then s4\<lparr>frameNumber := Suc (frameNumber s4)\<rparr> else s4)
                          in Inr (s5, frameNumber s5))))))"

text \<open>The loop of \<^verbatim>\<open>reloadAll\<close> over the keys of the cache, each with its tile.\<close>

fun reloadLoop :: "(string \<times> addr) list \<Rightarrow> Tileset2D \<Rightarrow> Tileset2D" where
  "reloadLoop [] s = s"
| "reloadLoop ((cacheKey, a) # rest) s =
     (if (case selectedTiles s of None \<Rightarrow> True | Some sel \<Rightarrow> a \<notin> set sel) then
        reloadLoop rest (s\<lparr>cache := cacheDelete cacheKey (cache s)\<rparr>)
      else reloadLoop rest (s\<lparr>heap := updTile a setNeedsReload (heap s)\<rparr>))"

definition reloadAll :: "Tileset2D \<Rightarrow> Tileset2D" where
  "reloadAll s = reloadLoop (cache s) s"

definition abortIfLoading :: "addr \<Rightarrow> store \<Rightarrow> store" where
  "abortIfLoading a h = (if isLoading (h a) then updTile a abort h else h)"

definition finalize :: "Tileset2D \<Rightarrow> Tileset2D" where
  "finalize s =
     s\<lparr>heap := fold abortIfLoading (map snd (cache s)) (heap s),
       cache := [], tiles := [], selectedTiles := None\<rparr>"

text \<open>The closure \<^verbatim>\<open>this.onTileLoad\<close> of the constructor.\<close>

definition onTileLoad :: "addr \<Rightarrow> Tileset2D \<Rightarrow> error + Tileset2D" where
  "onTileLoad a s =
     (let s1 = s\<lparr>loadLog := loadLog s @ [a]\<rparr> in
      if truthy (maxCacheByteSize (opts s1)) then
        resizeCache (s1\<lparr>cacheByteSize := cacheByteSize s1 + int (byteLength (heap s1 a))\<rparr>)
      else Inr s1)"

text \<open>Modelled from the spec: the external load of a tile resolves or fails. A resolved
  load stores the payload and its size and calls \<open>onTileLoad\<close>; a failed one leaves the
  tile resident with no content. Neither does anything to a tile that is not loading
  (an aborted load calls no callback).\<close>

definition loadResolved :: "addr \<Rightarrow> Payload option \<Rightarrow> nat \<Rightarrow> Tileset2D \<Rightarrow> error + Tileset2D" where
  "loadResolved a c n s =
     (if isLoading (heap s a) then
        onTileLoad a
          (s\<lparr>heap := updTile a (\<lambda>t. t\<lparr>load_state := Loaded, content := c, byte_length := n\<rparr>) (heap s)\<rparr>)
      else Inr s)"

definition loadFailed :: "addr \<Rightarrow> Tileset2D \<Rightarrow> Tileset2D" where
  "loadFailed a s =
     (if isLoading (heap s a) then
        s\<lparr>heap := updTile a (\<lambda>t. t\<lparr>load_state := Errored, content := None\<rparr>) (heap s)\<rparr>
      else s)"

section \<open>Quantities of the specification\<close>

text \<open>A tile is in the current selection; with no selection, none is.\<close>

definition inSelection :: "Tileset2D \<Rightarrow> addr \<Rightarrow> bool" where
  "inSelection s a = (case selectedTiles s of None \<Rightarrow> False | Some sel \<Rightarrow> a \<in> set sel)"

text \<open>The number of loads that pruning has to abort to come down to the ceiling, when
  throttling is on and enough candidates are there.\<close>

definition abortCount :: "Tileset2D \<Rightarrow> nat" where
  "abortCount s = (if maxRequests (opts s) > 0 then nat (ongoingRequestCount s - maxRequests (opts s)) else 0)"


text \<open>The two limits hold in a state whose selection is set.\<close>

definition cacheWithinLimits :: "Tileset2D \<Rightarrow> bool" where
  "cacheWithinLimits s =
     withinLimits (effMaxCacheSize (opts s) (length (the (selectedTiles s))))
       (effMaxCacheByteSize (opts s)) s"

section \<open>Example tilesets\<close>

text \<open>Tilesets reached by running the operations from a new tileset; they are the
  concrete inputs of the examples further down.\<close>

definition defaultProps :: Tileset2DProps where
  "defaultProps =
     \<lparr>maxCacheSize = None, maxCacheByteSize = None, refinementStrategy = None,
      maxZoom = None, minZoom = None, maxRequests = 6\<rparr>"

definition tileIndex :: "int \<Rightarrow> int \<Rightarrow> int \<Rightarrow> TileIndex" where
  "tileIndex a b c = \<lparr>tx = a, ty = b, tz = c\<rparr>"

definition stateOf :: "error + (Tileset2D \<times> nat) \<Rightarrow> Tileset2D" where
  "stateOf r = (case r of Inr (s, k) \<Rightarrow> s | Inl e \<Rightarrow> newTileset2D defaultProps)"

definition genPair :: IndexGenerator where
  "genPair vp mx mn zr mm =
     (if vp = 1 then [tileIndex 0 0 1, tileIndex 1 0 1] else [tileIndex 1 0 1])"

definition twoTilesOneSelected :: Tileset2D where
  "twoTilesOneSelected =
     stateOf (update 5 genPair 2 None None
       (stateOf (update 5 genPair 1 None None (newTileset2D defaultProps))))"

definition neverProps :: Tileset2DProps where
  "neverProps = defaultProps\<lparr>refinementStrategy := Some STRATEGY_NEVER\<rparr>"

definition neverTileset :: Tileset2D where
  "neverTileset =
     stateOf (update 5 genPair 2 None None
       (stateOf (update 5 genPair 1 None None (newTileset2D neverProps))))"

definition genNone :: IndexGenerator where
  "genNone vp mx mn zr mm = []"

definition throttledTileset :: Tileset2D where
  "throttledTileset =
     setOptions (defaultProps\<lparr>maxRequests := 1\<rparr>)
       (stateOf (update 5 genNone 2 None None
         (stateOf (update 5 genPair 1 None None (newTileset2D defaultProps)))))"

definition zoomedTileset :: Tileset2D where
  "zoomedTileset = setOptions (defaultProps\<lparr>maxZoom := Some (Num (79 / 10))\<rparr>) (newTileset2D defaultProps)"

definition badZoomProps :: Tileset2DProps where
  "badZoomProps = defaultProps\<lparr>maxZoom := Some NaN, minZoom := Some (Num (5 / 2))\<rparr>"



definition tightNeverProps :: Tileset2DProps where
  "tightNeverProps = defaultProps\<lparr>maxCacheSize := Some 1, refinementStrategy := Some STRATEGY_NEVER\<rparr>"




definition tightNeverRun :: "error + (Tileset2D \<times> nat)" where
  "tightNeverRun = update 5 genPair 1 None None (newTileset2D tightNeverProps)"


definition genLevels :: IndexGenerator where
  "genLevels vp mx mn zr mm = (if vp = 1 then [tileIndex 0 0 0] else [tileIndex 0 0 2])"

definition levelZeroTileset :: Tileset2D where
  "levelZeroTileset = stateOf (update 5 genLevels 1 None None (newTileset2D defaultProps))"

definition levelTwoRun :: "error + (Tileset2D \<times> nat)" where
  "levelTwoRun = update 5 genLevels 2 None None levelZeroTileset"









section \<open>Branches of the tile tree\<close>




section \<open>The tree invariant and the states of a tileset\<close>

text \<open>Every cached tile with a parent link sits below its parent and is listed among the
  parent's children.\<close>

definition treeLinked :: "Tileset2D \<Rightarrow> bool" where
  "treeLinked s =
     (\<forall>t \<in> snd ` set (cache s). \<forall>p.
        parent (heap s t) = Some p \<longrightarrow>
          zoom (heap s p) < zoom (heap s t) \<and> t \<in> set (children (heap s p)))"

text \<open>The states a tileset goes through: it is constructed, and then the host calls its
  operations and the loads of its tiles resolve or fail, each call returning before the
  next one starts. A call that raises ends the run.\<close>

inductive reachable :: "Tileset2D \<Rightarrow> bool" where
  created: "reachable (newTileset2D props)"
| setOptions: "reachable s \<Longrightarrow> reachable (setOptions props s)"
| update: "reachable s \<Longrightarrow> update n gen vp zr mm s = Inr (s1, k) \<Longrightarrow> reachable s1"
| reloadAll: "reachable s \<Longrightarrow> reachable (reloadAll s)"
| finalize: "reachable s \<Longrightarrow> reachable (finalize s)"
| loadResolved: "reachable s \<Longrightarrow> loadResolved a c n s = Inr s1 \<Longrightarrow> reachable s1"
| loadFailed: "reachable s \<Longrightarrow> reachable (loadFailed a s)"

section \<open>Properties used in the proofs\<close>

text \<open>A reading of a tile that a given kind of update leaves alone: starting a load,
  setting the tree links, setting the marks of a strategy.\<close>

definition loadBlind :: "(Tile2DHeader \<Rightarrow> 'a) \<Rightarrow> bool" where
  "loadBlind f = (\<forall>t. f (loadData t) = f t)"

definition linkBlind :: "(Tile2DHeader \<Rightarrow> 'a) \<Rightarrow> bool" where
  "linkBlind f = (\<forall>t p c. f (t\<lparr>parent := p\<rparr>) = f t \<and> f (t\<lparr>children := c\<rparr>) = f t)"

definition markBlind :: "(Tile2DHeader \<Rightarrow> 'a) \<Rightarrow> bool" where
  "markBlind f = (\<forall>t v w. f (t\<lparr>state := v\<rparr>) = f t \<and> f (t\<lparr>isVisible := w\<rparr>) = f t)"


text \<open>What selecting tiles may change of a tileset: the store, the cache, the next
  address and the dirty flag; the cache is dirty afterwards iff it was or a tile was
  created.\<close>

definition grows :: "Tileset2D \<Rightarrow> Tileset2D \<Rightarrow> bool" where
  "grows s s1 =
     (s1 = s\<lparr>heap := heap s1, nextAddr := nextAddr s1, cache := cache s1, dirty := dirty s1\<rparr> \<and>
      nextAddr s \<le> nextAddr s1 \<and>
      dirty s1 = (dirty s \<or> nextAddr s \<noteq> nextAddr s1) \<and>
      (nextAddr s1 = nextAddr s \<longrightarrow> cache s1 = cache s))"

text \<open>Reading decimal digits back, for the injectivity of the cache key.\<close>

definition is_digit :: "char \<Rightarrow> bool" where
  "is_digit c = (48 \<le> (of_char c :: nat) \<and> (of_char c :: nat) \<le> 57)"

definition digit_val :: "char \<Rightarrow> nat" where
  "digit_val c = of_char c - 48"

definition undigits :: "string \<Rightarrow> nat" where
  "undigits cs = foldl (\<lambda>acc c. 10 * acc + digit_val c) 0 cs"

definition cacheWf :: "Tileset2D \<Rightarrow> bool" where
  "cacheWf s =
     (\<forall>e \<in> set (cache s).
        snd e < nextAddr s \<and>
        fst e = getTileCacheKey (index (heap s (snd e))) \<and>
        zoom (heap s (snd e)) = tz (index (heap s (snd e))))"

definition parentsAllocated :: "Tileset2D \<Rightarrow> bool" where
  "parentsAllocated s =
     (\<forall>t \<in> snd ` set (cache s). \<forall>p. parent (heap s t) = Some p \<longrightarrow> p < nextAddr s)"

definition consistent :: "Tileset2D \<Rightarrow> bool" where
  "consistent s = (cacheWf s \<and> parentsAllocated s \<and> treeLinked s)"

definition abortBlind :: "(Tile2DHeader \<Rightarrow> 'a) \<Rightarrow> bool" where
  "abortBlind f = (\<forall>t. f (abort t) = f t)"

definition flagBlind :: "(Tile2DHeader \<Rightarrow> 'a) \<Rightarrow> bool" where
  "flagBlind f = (\<forall>t v w. f (t\<lparr>isSelected := v, isVisible := w\<rparr>) = f t)"

text \<open>The tree fields of a tile.\<close>

definition treeView :: "Tile2DHeader \<Rightarrow> TileIndex \<times> int \<times> addr option \<times> addr list" where
  "treeView t = (index t, zoom t, parent t, children t)"

definition chosenStrategy :: "Tileset2D \<Rightarrow> RefinementStrategy" where
  "chosenStrategy s = (case refinementStrategy (opts s) of None \<Rightarrow> STRATEGY_DEFAULT | Some r \<Rightarrow> r)"

text \<open>Two stores agree on what a refinement strategy reads of a tile: its links, its
  zoom, whether it has content and whether it is selected; on the tiles of \<open>T\<close> they
  agree on the state mask and the visibility as well.\<close>

definition sim :: "addr set \<Rightarrow> store \<Rightarrow> store \<Rightarrow> bool" where
  "sim T h k =
     (\<forall>b. parent (h b) = parent (k b) \<and> children (h b) = children (k b) \<and>
          zoom (h b) = zoom (k b) \<and> hasContent (h b) = hasContent (k b) \<and>
          isSelected (h b) = isSelected (k b) \<and>
          (b \<in> T \<longrightarrow> state (h b) = state (k b) \<and> isVisible (h b) = isVisible (k b)))"



text \<open>What the placeholder walks read of a tile.\<close>

definition placeholderView :: "Tile2DHeader \<Rightarrow> addr option \<times> addr list \<times> int \<times> bool" where
  "placeholderView t = (parent t, children t, zoom t, hasContent t)"

section \<open>The tile store\<close>

lemma updTile_apply: "updTile a f h b = (if b = a then f (h a) else h b)"
  by (simp add: updTile_def)

lemma fold_updTile_other:
  "b \<notin> set xs \<Longrightarrow> fold (\<lambda>a. updTile a f) xs h b = h b"
  by (induction xs arbitrary: h) (auto simp: updTile_apply)

lemma fold_updTile_idem:
  assumes "\<And>t. f (f t) = f t"
  shows "fold (\<lambda>a. updTile a f) xs h b = (if b \<in> set xs then f (h b) else h b)"
  using assms
proof (induction xs arbitrary: h)
  case Nil
  then show ?case by simp
next
  case (Cons x xs)
  show ?case
    using Cons.IH[OF Cons.prems, of "updTile x f h"] Cons.prems by (auto simp: updTile_apply)
qed

lemma stateOf_run: "\<not> isl r \<Longrightarrow> r = Inr (stateOf r, snd (projr r))"
  by (cases r) (auto simp: stateOf_def)

section \<open>Frames\<close>

lemma getTileByKey_frame:
  "fst (getTileByKey k s) = s\<lparr>heap := heap (fst (getTileByKey k s))\<rparr>"
  by (simp add: getTileByKey_def split: option.splits)

lemma getTileByKey_snd: "snd (getTileByKey k s) = map_of (cache s) k"
  by (simp add: getTileByKey_def split: option.splits)

lemma getTile_False: "getTile i False s = getTileByKey (getTileCacheKey i) s"
  by (simp add: getTile_def)

lemma getTileByKey_blind:
  "loadBlind f \<Longrightarrow> f (heap (fst (getTileByKey k s)) b) = f (heap s b)"
  by (simp add: getTileByKey_def loadBlind_def updTile_apply split: option.splits)

lemma ancestorWalk_frame:
  "fst (ancestorWalk mz i s) = s\<lparr>heap := heap (fst (ancestorWalk mz i s))\<rparr>"
proof (induction mz i s rule: ancestorWalk.induct)
  case (1 mz i s)
  show ?case
  proof (cases "getTileZoom i > mz")
    case False
    then show ?thesis by (simp add: ancestorWalk.simps[of mz i s])
  next
    case True
    obtain s1 r where g: "getTile (getParentIndex i) False s = (s1, r)" by force
    have f1: "s1 = s\<lparr>heap := heap s1\<rparr>"
      using getTileByKey_frame[of "getTileCacheKey (getParentIndex i)" s] g by (simp add: getTile_False)
    show ?thesis
    proof (cases r)
      case (Some p)
      then show ?thesis using True g f1 by (simp add: ancestorWalk.simps[of mz i s])
    next
      case None
      have "fst (ancestorWalk mz (getParentIndex i) s1) = s1\<lparr>heap := heap (fst (ancestorWalk mz (getParentIndex i) s1))\<rparr>"
        using 1[OF True g[symmetric] None] by simp
      then have "fst (ancestorWalk mz (getParentIndex i) s1) = s\<lparr>heap := heap (fst (ancestorWalk mz (getParentIndex i) s1))\<rparr>"
        by (subst (asm) f1) simp
      then show ?thesis using True g None by (simp add: ancestorWalk.simps[of mz i s])
    qed
  qed
qed

lemma ancestorWalk_blind:
  "loadBlind f \<Longrightarrow> f (heap (fst (ancestorWalk mz i s)) b) = f (heap s b)"
proof (induction mz i s rule: ancestorWalk.induct)
  case (1 mz i s)
  show ?case
  proof (cases "getTileZoom i > mz")
    case False
    then show ?thesis by (simp add: ancestorWalk.simps[of mz i s])
  next
    case True
    obtain s1 r where g: "getTile (getParentIndex i) False s = (s1, r)" by force
    have f1: "f (heap s1 b) = f (heap s b)"
      using getTileByKey_blind[OF 1(2), of "getTileCacheKey (getParentIndex i)" s b] g
      by (simp add: getTile_False)
    show ?thesis
    proof (cases r)
      case (Some p)
      then show ?thesis using True g f1 by (simp add: ancestorWalk.simps[of mz i s])
    next
      case None
      have "f (heap (fst (ancestorWalk mz (getParentIndex i) s1)) b) = f (heap s1 b)"
        using 1(1)[OF True g[symmetric] None 1(2)] by simp
      then show ?thesis using True g None f1 by (simp add: ancestorWalk.simps[of mz i s])
    qed
  qed
qed

lemma getNearestAncestor_frame:
  "fst (getNearestAncestor a s) = s\<lparr>heap := heap (fst (getNearestAncestor a s))\<rparr>"
  unfolding getNearestAncestor_def by (rule ancestorWalk_frame)

lemma getNearestAncestor_blind:
  "loadBlind f \<Longrightarrow> f (heap (fst (getNearestAncestor a s)) b) = f (heap s b)"
  unfolding getNearestAncestor_def by (rule ancestorWalk_blind)

lemma linkTiles_frame: "linkTiles as s = s\<lparr>heap := heap (linkTiles as s)\<rparr>"
proof (induction as arbitrary: s)
  case Nil
  then show ?case by simp
next
  case (Cons a as)
  obtain s1 p where g: "getNearestAncestor a s = (s1, p)" by force
  have f1: "s1 = s\<lparr>heap := heap s1\<rparr>"
    using getNearestAncestor_frame[of a s] g by simp
  define h2 where "h2 = (case p of None \<Rightarrow> updTile a (\<lambda>t. t\<lparr>parent := p\<rparr>) (heap s1)
     | Some q \<Rightarrow> updTile q (\<lambda>t. t\<lparr>children := children t @ [a]\<rparr>) (updTile a (\<lambda>t. t\<lparr>parent := p\<rparr>) (heap s1)))"
  have step: "linkTiles (a # as) s = linkTiles as (s1\<lparr>heap := h2\<rparr>)"
    using g by (simp add: h2_def Let_def split: option.splits)
  have "s1\<lparr>heap := h2\<rparr> = s\<lparr>heap := h2\<rparr>" by (subst f1) simp
  then have "linkTiles (a # as) s = linkTiles as (s\<lparr>heap := h2\<rparr>)" using step by simp
  moreover have "linkTiles as (s\<lparr>heap := h2\<rparr>) = s\<lparr>heap := h2\<rparr>\<lparr>heap := heap (linkTiles as (s\<lparr>heap := h2\<rparr>))\<rparr>"
    by (rule Cons.IH)
  ultimately show ?case by simp
qed

lemma linkTiles_blind:
  "loadBlind f \<Longrightarrow> linkBlind f \<Longrightarrow> f (heap (linkTiles as s) b) = f (heap s b)"
proof (induction as arbitrary: s)
  case Nil
  then show ?case by simp
next
  case (Cons a as)
  obtain s1 p where g: "getNearestAncestor a s = (s1, p)" by force
  have f1: "f (heap s1 b) = f (heap s b)"
    using getNearestAncestor_blind[OF Cons.prems(1), of a s b] g by simp
  define h2 where "h2 = (case p of None \<Rightarrow> updTile a (\<lambda>t. t\<lparr>parent := p\<rparr>) (heap s1)
     | Some q \<Rightarrow> updTile q (\<lambda>t. t\<lparr>children := children t @ [a]\<rparr>) (updTile a (\<lambda>t. t\<lparr>parent := p\<rparr>) (heap s1)))"
  have step: "linkTiles (a # as) s = linkTiles as (s1\<lparr>heap := h2\<rparr>)"
    using g by (simp add: h2_def Let_def split: option.splits)
  have "f (h2 b) = f (heap s1 b)"
    using Cons.prems(2) by (simp add: h2_def linkBlind_def updTile_apply split: option.splits)
  moreover have "f (heap (linkTiles as (s1\<lparr>heap := h2\<rparr>)) b) = f (heap (s1\<lparr>heap := h2\<rparr>) b)"
    by (rule Cons.IH[OF Cons.prems])
  ultimately show ?case using step f1 by simp
qed

lemma fold_resetLinks_blind:
  "linkBlind f \<Longrightarrow> f (fold resetLinks xs h b) = f (h b)"
  by (induction xs arbitrary: h) (simp_all add: resetLinks_def linkBlind_def updTile_apply)

lemma rebuildTree_frame: "rebuildTree s = s\<lparr>heap := heap (rebuildTree s)\<rparr>"
  unfolding rebuildTree_def Let_def
  by (subst linkTiles_frame) simp

lemma rebuildTree_blind:
  "loadBlind f \<Longrightarrow> linkBlind f \<Longrightarrow> f (heap (rebuildTree s) b) = f (heap s b)"
  unfolding rebuildTree_def Let_def
  by (simp add: linkTiles_blind fold_resetLinks_blind)

lemma rebuildTree_fields [simp]:
  "opts (rebuildTree s) = opts s" "cache (rebuildTree s) = cache s"
  "dirty (rebuildTree s) = dirty s" "tiles (rebuildTree s) = tiles s"
  "cacheByteSize (rebuildTree s) = cacheByteSize s" "viewport (rebuildTree s) = viewport s"
  "selectedTiles (rebuildTree s) = selectedTiles s" "frameNumber (rebuildTree s) = frameNumber s"
  "modelMatrix (rebuildTree s) = modelMatrix s" "priv_maxZoom (rebuildTree s) = priv_maxZoom s"
  "priv_minZoom (rebuildTree s) = priv_minZoom s" "nextAddr (rebuildTree s) = nextAddr s"
  "unloadLog (rebuildTree s) = unloadLog s" "loadLog (rebuildTree s) = loadLog s"
  by (subst rebuildTree_frame, simp)+

lemma blind_isVisible [simp]: "loadBlind isVisible" "linkBlind isVisible"
  by (simp_all add: loadBlind_def linkBlind_def loadData_def)
lemma blind_isSelected [simp]: "loadBlind isSelected" "linkBlind isSelected"
  by (simp_all add: loadBlind_def linkBlind_def loadData_def)
lemma blind_zoom [simp]: "loadBlind zoom" "linkBlind zoom"
  by (simp_all add: loadBlind_def linkBlind_def loadData_def)
lemma blind_index [simp]: "loadBlind index" "linkBlind index"
  by (simp_all add: loadBlind_def linkBlind_def loadData_def)
lemma blind_byteLength [simp]: "loadBlind byteLength" "linkBlind byteLength"
  by (simp_all add: loadBlind_def linkBlind_def loadData_def byteLength_def)
lemma blind_state [simp]: "loadBlind state" "linkBlind state"
  by (simp_all add: loadBlind_def linkBlind_def loadData_def)
lemma blind_hasContent [simp]: "linkBlind hasContent"
  by (simp_all add: linkBlind_def hasContent_def isLoaded_def)

section \<open>Frames of the strategies\<close>

lemma getPlaceholderInAncestors_blind:
  "getPlaceholderInAncestors n h t = Some (h1, r) \<Longrightarrow> markBlind f \<Longrightarrow> f (h1 b) = f (h b)"
  by (induction n h t rule: getPlaceholderInAncestors.induct)
     (auto simp: markBlind_def updTile_apply split: if_splits)

lemma getPlaceholderInChildren_blind:
  "getPlaceholderInChildren n h cs = Some h1 \<Longrightarrow> markBlind f \<Longrightarrow> f (h1 b) = f (h b)"
proof (induction n h cs arbitrary: h1 rule: getPlaceholderInChildren.induct)
  case (1 n h)
  then show ?case by simp
next
  case (2 h c cs)
  then show ?case by simp
next
  case (3 n h c cs)
  show ?case
  proof (cases "hasContent (h c)")
    case True
    then have "f (h1 b) = f (updTile c (\<lambda>t. t\<lparr>state := state t OR TILE_STATE_VISIBLE\<rparr>) h b)"
      using 3 by simp
    then show ?thesis using 3(5) by (simp add: markBlind_def updTile_apply)
  next
    case False
    then obtain h2 where h2: "getPlaceholderInChildren n h (children (h c)) = Some h2"
      and r: "getPlaceholderInChildren (Suc n) h2 cs = Some h1"
      using 3(4) by (auto split: option.splits)
    have "f (h2 b) = f (h b)" using 3(2)[OF False h2 3(5)] .
    moreover have "f (h1 b) = f (h2 b)" using 3(3)[OF False h2 r 3(5)] .
    ultimately show ?thesis by simp
  qed
qed

lemma fold_clearState_blind: "markBlind f \<Longrightarrow> f (fold clearState xs h b) = f (h b)"
  by (induction xs arbitrary: h) (simp_all add: clearState_def markBlind_def updTile_apply)

lemma fold_setVisibleFromState_blind:
  "markBlind f \<Longrightarrow> f (fold setVisibleFromState xs h b) = f (h b)"
  by (induction xs arbitrary: h) (simp_all add: setVisibleFromState_def markBlind_def updTile_apply)

lemma fold_markVisited_blind: "markBlind f \<Longrightarrow> f (fold markVisited xs h b) = f (h b)"
  by (induction xs arbitrary: h) (simp_all add: markVisited_def markBlind_def updTile_apply)

lemma placeholdersDefault_blind:
  "placeholdersDefault n as h = Some h1 \<Longrightarrow> markBlind f \<Longrightarrow> f (h1 b) = f (h b)"
proof (induction as arbitrary: h)
  case Nil
  then show ?case by simp
next
  case (Cons a as)
  show ?case
  proof (cases "isSelected (h a)")
    case False
    then show ?thesis using Cons by simp
  next
    case True
    then obtain h2 found where g: "getPlaceholderInAncestors n h (Some a) = Some (h2, found)"
      using Cons.prems(1) by (auto split: option.splits)
    have e2: "f (h2 b) = f (h b)" using getPlaceholderInAncestors_blind[OF g Cons.prems(2)] .
    show ?thesis
    proof (cases found)
      case True
      then have "placeholdersDefault n as h2 = Some h1"
        using Cons.prems(1) g \<open>isSelected (h a)\<close> by simp
      then show ?thesis using Cons.IH Cons.prems(2) e2 by simp
    next
      case False
      then obtain h3 where c: "getPlaceholderInChildren n h2 (children (h2 a)) = Some h3"
        and r: "placeholdersDefault n as h3 = Some h1"
        using Cons.prems(1) g \<open>isSelected (h a)\<close> by (auto split: option.splits)
      have "f (h3 b) = f (h2 b)" using getPlaceholderInChildren_blind[OF c Cons.prems(2)] .
      then show ?thesis using Cons.IH[OF r Cons.prems(2)] e2 by simp
    qed
  qed
qed

lemma placeholdersReplace_blind:
  "placeholdersReplace n as h = Some h1 \<Longrightarrow> markBlind f \<Longrightarrow> f (h1 b) = f (h b)"
proof (induction as arbitrary: h)
  case Nil
  then show ?case by simp
next
  case (Cons a as)
  show ?case
  proof (cases "isSelected (h a)")
    case False
    then show ?thesis using Cons by simp
  next
    case True
    then obtain h2 found where g: "getPlaceholderInAncestors n h (Some a) = Some (h2, found)"
      and r: "placeholdersReplace n as h2 = Some h1"
      using Cons.prems(1) by (auto split: option.splits)
    have e2: "f (h2 b) = f (h b)" using getPlaceholderInAncestors_blind[OF g Cons.prems(2)] .
    then show ?thesis using Cons.IH[OF r Cons.prems(2)] by simp
  qed
qed

lemma refineSorted_blind:
  "refineSorted n as h = Some h1 \<Longrightarrow> markBlind f \<Longrightarrow> f (h1 b) = f (h b)"
proof (induction as arbitrary: h)
  case Nil
  then show ?case by simp
next
  case (Cons a as)
  let ?h1 = "setVisibleFromState a h"
  have e1: "f (?h1 b) = f (h b)"
    using Cons.prems(2) by (simp add: setVisibleFromState_def markBlind_def updTile_apply)
  consider (hide) "isVisible (?h1 a) \<or> state (?h1 a) AND TILE_STATE_VISITED \<noteq> 0"
    | (search) "\<not> (isVisible (?h1 a) \<or> state (?h1 a) AND TILE_STATE_VISITED \<noteq> 0)" "isSelected (?h1 a)"
    | (skip) "\<not> (isVisible (?h1 a) \<or> state (?h1 a) AND TILE_STATE_VISITED \<noteq> 0)" "\<not> isSelected (?h1 a)"
    by blast
  then show ?case
  proof cases
    case hide
    then have r: "refineSorted n as (fold markVisited (children (?h1 a)) ?h1) = Some h1"
      using Cons.prems(1) by (simp add: Let_def)
    show ?thesis
      using Cons.IH[OF r Cons.prems(2)] fold_markVisited_blind[OF Cons.prems(2)] e1 by simp
  next
    case search
    then obtain h2 where c: "getPlaceholderInChildren n ?h1 (children (?h1 a)) = Some h2"
      and r: "refineSorted n as h2 = Some h1"
      using Cons.prems(1) by (auto simp: Let_def split: option.splits)
    show ?thesis
      using Cons.IH[OF r Cons.prems(2)] getPlaceholderInChildren_blind[OF c Cons.prems(2)] e1 by simp
  next
    case skip
    then have r: "refineSorted n as ?h1 = Some h1"
      using Cons.prems(1) by (simp add: Let_def)
    show ?thesis using Cons.IH[OF r Cons.prems(2)] e1 by simp
  qed
qed

lemma STRATEGIES_blind:
  "STRATEGIES r n as h = Some h1 \<Longrightarrow> markBlind f \<Longrightarrow> f (h1 b) = f (h b)"
proof (cases r)
  case STRATEGY_NEVER
  assume "STRATEGIES r n as h = Some h1"
  then show ?thesis using STRATEGY_NEVER by simp
next
  case STRATEGY_REPLACE
  assume a: "STRATEGIES r n as h = Some h1" and m: "markBlind f"
  then obtain h2 where p: "placeholdersReplace n as (fold clearState as h) = Some h2"
    and q: "refineSorted n (sort_key (\<lambda>a. zoom (h2 a)) as) h2 = Some h1"
    using STRATEGY_REPLACE by (auto simp: updateTileStateReplace_def split: option.splits)
  show ?thesis
    using refineSorted_blind[OF q m] placeholdersReplace_blind[OF p m] fold_clearState_blind[OF m]
    by simp
next
  case STRATEGY_DEFAULT
  assume a: "STRATEGIES r n as h = Some h1" and m: "markBlind f"
  then obtain h2 where p: "placeholdersDefault n as (fold clearState as h) = Some h2"
    and q: "h1 = fold setVisibleFromState as h2"
    using STRATEGY_DEFAULT by (auto simp: updateTileStateDefault_def split: option.splits)
  show ?thesis
    using placeholdersDefault_blind[OF p m] fold_clearState_blind[OF m]
      fold_setVisibleFromState_blind[OF m] q
    by simp
qed

lemma markBlind_simps [simp]:
  "markBlind isSelected" "markBlind parent" "markBlind children" "markBlind zoom"
  "markBlind index" "markBlind hasContent" "markBlind isLoading" "markBlind needsReload"
  "markBlind byteLength" "markBlind load_state"
  by (simp_all add: markBlind_def hasContent_def isLoaded_def isLoading_def needsReload_def
      byteLength_def)

section \<open>The eviction scan\<close>

lemma evictScan_frame:
  "evictScan ms mb es s =
     s\<lparr>cacheByteSize := cacheByteSize (evictScan ms mb es s),
       cache := cache (evictScan ms mb es s),
       unloadLog := unloadLog (evictScan ms mb es s)\<rparr>"
proof (induction ms mb es s rule: evictScan.induct)
  case (1 maxSize maxBytes s)
  then show ?case by simp
next
  case (2 maxSize maxBytes cacheKey a rest s)
  define s1 where "s1 = (if \<not> isVisible (heap s a) then
                  s\<lparr>cacheByteSize :=
                      cacheByteSize s -
                        (if truthy (maxCacheByteSize (opts s)) then int (byteLength (heap s a)) else 0),
                    cache := cacheDelete cacheKey (cache s),
                    unloadLog := unloadLog s @ [a]\<rparr>
                else s)"
  have s1: "s1 = s\<lparr>cacheByteSize := cacheByteSize s1, cache := cache s1, unloadLog := unloadLog s1\<rparr>"
    by (simp add: s1_def)
  show ?case
  proof (cases "withinLimits maxSize maxBytes s1")
    case True
    then have "evictScan maxSize maxBytes ((cacheKey, a) # rest) s = s1"
      by (simp add: s1_def Let_def)
    then show ?thesis using s1 by simp
  next
    case False
    then have e: "evictScan maxSize maxBytes ((cacheKey, a) # rest) s = evictScan maxSize maxBytes rest s1"
      by (simp add: s1_def Let_def)
    have "evictScan maxSize maxBytes rest s1 =
        s1\<lparr>cacheByteSize := cacheByteSize (evictScan maxSize maxBytes rest s1),
           cache := cache (evictScan maxSize maxBytes rest s1),
           unloadLog := unloadLog (evictScan maxSize maxBytes rest s1)\<rparr>"
      using 2[OF s1_def False] .
    then have "evictScan maxSize maxBytes rest s1 =
        s\<lparr>cacheByteSize := cacheByteSize (evictScan maxSize maxBytes rest s1),
           cache := cache (evictScan maxSize maxBytes rest s1),
           unloadLog := unloadLog (evictScan maxSize maxBytes rest s1)\<rparr>"
      by (subst (asm) s1) simp
    then show ?thesis using e by simp
  qed
qed

lemma evictScan_fields [simp]:
  "heap (evictScan ms mb es s) = heap s" "opts (evictScan ms mb es s) = opts s"
  "selectedTiles (evictScan ms mb es s) = selectedTiles s" "dirty (evictScan ms mb es s) = dirty s"
  "nextAddr (evictScan ms mb es s) = nextAddr s" "tiles (evictScan ms mb es s) = tiles s"
  "frameNumber (evictScan ms mb es s) = frameNumber s" "viewport (evictScan ms mb es s) = viewport s"
  "modelMatrix (evictScan ms mb es s) = modelMatrix s" "loadLog (evictScan ms mb es s) = loadLog s"
  "priv_minZoom (evictScan ms mb es s) = priv_minZoom s"
  "priv_maxZoom (evictScan ms mb es s) = priv_maxZoom s"
  by (subst evictScan_frame, simp)+

lemma evictScan_step:
  "evictScan ms mb ((k, a) # rest) s =
     (let s1 = (if \<not> isVisible (heap s a) then
                  s\<lparr>cacheByteSize :=
                      cacheByteSize s -
                        (if truthy (maxCacheByteSize (opts s)) then int (byteLength (heap s a)) else 0),
                    cache := cacheDelete k (cache s),
                    unloadLog := unloadLog s @ [a]\<rparr>
                else s)
      in if withinLimits ms mb s1 then s1 else evictScan ms mb rest s1)"
  by simp

lemma evictScan_limits_or_visible:
  "(\<And>e. e \<in> set (cache s) \<Longrightarrow> e \<notin> set es \<Longrightarrow> isVisible (heap s (snd e))) \<Longrightarrow>
   withinLimits ms mb (evictScan ms mb es s) \<or>
   (\<forall>e \<in> set (cache (evictScan ms mb es s)). isVisible (heap s (snd e)))"
proof (induction es arbitrary: s)
  case Nil
  then show ?case by auto
next
  case (Cons ka rest)
  obtain k a where ka: "ka = (k, a)" by (cases ka)
  define s1 where "s1 = (if \<not> isVisible (heap s a) then
                  s\<lparr>cacheByteSize :=
                      cacheByteSize s -
                        (if truthy (maxCacheByteSize (opts s)) then int (byteLength (heap s a)) else 0),
                    cache := cacheDelete k (cache s),
                    unloadLog := unloadLog s @ [a]\<rparr>
                else s)"
  have h1: "heap s1 = heap s" by (simp add: s1_def)
  have pre: "isVisible (heap s1 (snd e))" if "e \<in> set (cache s1)" "e \<notin> set rest" for e
  proof (cases "isVisible (heap s a)")
    case True
    then have "s1 = s" by (simp add: s1_def)
    then show ?thesis using that Cons.prems[of e] True ka by (cases "e = (k, a)") auto
  next
    case False
    then have "cache s1 = cacheDelete k (cache s)" by (simp add: s1_def)
    then have "e \<in> set (cache s)" "fst e \<noteq> k" using that by (auto simp: cacheDelete_def)
    then have "e \<notin> set (ka # rest)" using that ka by auto
    then show ?thesis using Cons.prems[of e] \<open>e \<in> set (cache s)\<close> h1 by simp
  qed
  show ?case
  proof (cases "withinLimits ms mb s1")
    case True
    then have "evictScan ms mb (ka # rest) s = s1"
      unfolding ka evictScan_step by (simp add: s1_def Let_def)
    then show ?thesis using True by simp
  next
    case False
    then have e: "evictScan ms mb (ka # rest) s = evictScan ms mb rest s1"
      unfolding ka evictScan_step by (simp add: s1_def Let_def)
    show ?thesis using Cons.IH[of s1] pre h1 unfolding e by simp
  qed
qed



lemma resizeCache_cases:
  assumes "resizeCache s = Inr s1"
  obtains (evict) sel where "selectedTiles s = Some sel"
      "enat (length (cache s)) > effMaxCacheSize (opts s) (length sel) \<or>
       exceeds (cacheByteSize s) (effMaxCacheByteSize (opts s))"
      "s1 = (rebuildTree (evictScan (effMaxCacheSize (opts s) (length sel))
               (effMaxCacheByteSize (opts s)) (cache s) s))
             \<lparr>tiles := tiles s1, dirty := False\<rparr>"
    | (keep) sel where "selectedTiles s = Some sel"
      "\<not> (enat (length (cache s)) > effMaxCacheSize (opts s) (length sel) \<or>
       exceeds (cacheByteSize s) (effMaxCacheByteSize (opts s)))"
      "s1 = s\<lparr>tiles := tiles s1, dirty := False\<rparr>"
proof -
  obtain sel where sel: "selectedTiles s = Some sel"
    using assms by (auto simp: resizeCache_def split: option.splits)
  show thesis
  proof (cases "enat (length (cache s)) > effMaxCacheSize (opts s) (length sel) \<or>
       exceeds (cacheByteSize s) (effMaxCacheByteSize (opts s))")
    case True
    then have "s1 = (rebuildTree (evictScan (effMaxCacheSize (opts s) (length sel))
               (effMaxCacheByteSize (opts s)) (cache s) s))
             \<lparr>tiles := tiles s1, dirty := False\<rparr>"
      using assms sel by (auto simp: resizeCache_def Let_def)
    then show ?thesis using evict sel True by blast
  next
    case False
    then have "s1 = s\<lparr>tiles := tiles s1, dirty := False\<rparr>"
      using assms sel by (auto simp: resizeCache_def Let_def)
    then show ?thesis using keep sel False by blast
  qed
qed

lemma resizeCache_limits_or_visible:
  assumes "resizeCache s = Inr s1"
  shows "cacheWithinLimits s1 \<or> (\<forall>a \<in> snd ` set (cache s1). isVisible (heap s1 a))"
  using assms
proof (cases rule: resizeCache_cases)
  case (evict sel)
  let ?ms = "effMaxCacheSize (opts s) (length sel)"
  let ?mb = "effMaxCacheByteSize (opts s)"
  let ?e = "evictScan ?ms ?mb (cache s) s"
  have f: "cache s1 = cache ?e" "cacheByteSize s1 = cacheByteSize ?e" "opts s1 = opts s"
      "selectedTiles s1 = Some sel" "heap s1 = heap (rebuildTree ?e)"
    using evict(1) by (subst evict(3), simp)+
  have v: "isVisible (heap (rebuildTree ?e) b) = isVisible (heap s b)" for b
    by (simp add: rebuildTree_blind)
  have "withinLimits ?ms ?mb ?e \<or> (\<forall>e \<in> set (cache ?e). isVisible (heap s (snd e)))"
    by (rule evictScan_limits_or_visible) simp
  then show ?thesis
    unfolding cacheWithinLimits_def withinLimits_def f v by auto
next
  case (keep sel)
  have f: "cache s1 = cache s" "cacheByteSize s1 = cacheByteSize s" "opts s1 = opts s"
      "selectedTiles s1 = Some sel"
    using keep(1) by (subst keep(3), simp)+
  show ?thesis
    using keep(2) unfolding cacheWithinLimits_def withinLimits_def f by (auto simp: not_less)
qed

section \<open>Selecting tiles\<close>

lemma grows_refl: "grows s s"
  by (simp add: grows_def)

lemma grows_trans: "grows s s1 \<Longrightarrow> grows s1 s2 \<Longrightarrow> grows s s2"
proof -
  assume a: "grows s s1" and b: "grows s1 s2"
  have 1: "s1 = s\<lparr>heap := heap s1, nextAddr := nextAddr s1, cache := cache s1, dirty := dirty s1\<rparr>"
    using a unfolding grows_def by blast
  have 2: "s2 = s1\<lparr>heap := heap s2, nextAddr := nextAddr s2, cache := cache s2, dirty := dirty s2\<rparr>"
    using b unfolding grows_def by blast
  have "s2 = s\<lparr>heap := heap s2, nextAddr := nextAddr s2, cache := cache s2, dirty := dirty s2\<rparr>"
    by (subst 2, subst 1) simp
  moreover have "nextAddr s \<le> nextAddr s2" using a b unfolding grows_def by linarith
  moreover have "dirty s2 = (dirty s \<or> nextAddr s \<noteq> nextAddr s2)"
    using a b unfolding grows_def by (metis le_antisym)
  moreover have "nextAddr s2 = nextAddr s \<longrightarrow> cache s2 = cache s"
    using a b unfolding grows_def by (metis le_antisym)
  ultimately show ?thesis unfolding grows_def by blast
qed

lemma getTileByKey_grows: "grows s (fst (getTileByKey k s))"
  unfolding grows_def by (subst getTileByKey_frame, simp)+

lemma getTile_grows: "grows s (fst (getTile i c s))"
proof (cases "map_of (cache s) (getTileCacheKey i) = None \<and> c")
  case True
  then show ?thesis by (simp add: getTile_def Let_def grows_def)
next
  case False
  then have "getTile i c s = getTileByKey (getTileCacheKey i) s"
    by (auto simp: getTile_def Let_def)
  then show ?thesis using getTileByKey_grows by simp
qed

lemma selectTiles_fst:
  "fst (selectTiles (i # is) s) = fst (selectTiles is (fst (getTile i True s)))"
  by (auto split: prod.splits)

lemma reselectTiles_fst:
  "fst (reselectTiles (a # as) s) = fst (reselectTiles as (fst (getTileByKey undefinedCacheKey s)))"
  by (auto split: prod.splits)

lemma selectTiles_grows: "grows s (fst (selectTiles is s))"
proof (induction "is" arbitrary: s)
  case Nil
  then show ?case by (simp add: grows_refl)
next
  case (Cons i "is")
  obtain s1 t where g: "getTile i True s = (s1, t)" by force
  have "grows s s1" using getTile_grows[of s i True] g by simp
  moreover have "grows s1 (fst (selectTiles is s1))" by (rule Cons.IH)
  ultimately have "grows s (fst (selectTiles is s1))" by (rule grows_trans)
  then show ?case unfolding selectTiles_fst g by simp
qed

lemma reselectTiles_frame:
  "fst (reselectTiles as s) = s\<lparr>heap := heap (fst (reselectTiles as s))\<rparr>"
proof (induction as arbitrary: s)
  case Nil
  then show ?case by simp
next
  case (Cons a as)
  obtain s1 t where g: "getTileByKey undefinedCacheKey s = (s1, t)" by force
  have 1: "s1 = s\<lparr>heap := heap s1\<rparr>" using getTileByKey_frame[of undefinedCacheKey s] g by simp
  have "fst (reselectTiles as s1) = s1\<lparr>heap := heap (fst (reselectTiles as s1))\<rparr>" by (rule Cons.IH)
  then have "fst (reselectTiles as s1) = s\<lparr>heap := heap (fst (reselectTiles as s1))\<rparr>"
    by (subst (asm) 1) simp
  then show ?case unfolding reselectTiles_fst g by simp
qed

lemma updateSelection_dirty:
  assumes "updateSelection gen vp zr mm s = (sA, r)"
  shows "dirty sA = (dirty s \<or> nextAddr s \<noteq> nextAddr sA)"
proof -
  let ?m = "case mm of None \<Rightarrow> identityMatrix | Some m \<Rightarrow> m"
  consider (new) "viewport s \<noteq> Some vp \<or> ?m \<noteq> modelMatrix s"
    | (reload) "\<not> (viewport s \<noteq> Some vp \<or> ?m \<noteq> modelMatrix s)" "tilesetNeedsReload s"
    | (same) "\<not> (viewport s \<noteq> Some vp \<or> ?m \<noteq> modelMatrix s)" "\<not> tilesetNeedsReload s"
    by blast
  then show ?thesis
  proof cases
    case new
    let ?s1 = "s\<lparr>modelMatrix := ?m, viewport := Some vp\<rparr>"
    let ?idx = "gen vp (priv_maxZoom ?s1) (priv_minZoom ?s1) zr (modelMatrix ?s1)"
    obtain s2 sel where st: "selectTiles ?idx ?s1 = (s2, sel)" by force
    have sA: "sA = (if dirty s2 then rebuildTree s2 else s2)"
      using assms new st by (auto simp: updateSelection_def Let_def)
    have "grows ?s1 s2" using selectTiles_grows[of ?s1 ?idx] st by simp
    then have "dirty s2 = (dirty s \<or> nextAddr s \<noteq> nextAddr s2)" by (simp add: grows_def)
    then show ?thesis unfolding sA by simp
  next
    case reload
    obtain s2 sel where st: "reselectTiles (the (selectedTiles s)) s = (s2, sel)" by force
    have sA: "sA = s2" using assms reload st by (auto simp: updateSelection_def Let_def)
    have "s2 = s\<lparr>heap := heap s2\<rparr>" using reselectTiles_frame[of "the (selectedTiles s)" s] st by simp
    then have "dirty s2 = dirty s" "nextAddr s2 = nextAddr s" by (metis Tileset2D.select_convs Tileset2D.surjective Tileset2D.update_convs)+
    then show ?thesis unfolding sA by simp
  next
    case same
    then have "sA = s" using assms by (auto simp: updateSelection_def Let_def)
    then show ?thesis by simp
  qed
qed

section \<open>The steps of an update\<close>

lemma update_steps:
  assumes "update n gen vp zr mm s = Inr (s1, k)"
  obtains sA osel sel sB changed sD where
    "updateSelection gen vp zr mm s = (sA, Some osel)" "those osel = Some sel"
    "updateTileStates n (sA\<lparr>selectedTiles := Some sel\<rparr>) = Inr (sB, changed)"
    "(if dirty (pruneRequests sB) then resizeCache (pruneRequests sB) else Inr (pruneRequests sB)) = Inr sD"
    "s1 = (if changed then sD\<lparr>frameNumber := Suc (frameNumber sD)\<rparr> else sD)"
    "k = frameNumber s1"
proof -
  obtain sA r where u: "updateSelection gen vp zr mm s = (sA, r)" by force
  then obtain osel where r: "r = Some osel"
    using assms by (cases r) (auto simp: update_def)
  obtain sel where t: "those osel = Some sel"
    using assms u r by (cases "those osel") (auto simp: update_def)
  obtain sB changed where b: "updateTileStates n (sA\<lparr>selectedTiles := Some sel\<rparr>) = Inr (sB, changed)"
    using assms u r t by (cases "updateTileStates n (sA\<lparr>selectedTiles := Some sel\<rparr>)") (auto simp: update_def)
  obtain sD where d: "(if dirty (pruneRequests sB) then resizeCache (pruneRequests sB) else Inr (pruneRequests sB)) = Inr sD"
    using assms u r t b
    by (cases "(if dirty (pruneRequests sB) then resizeCache (pruneRequests sB) else Inr (pruneRequests sB))")
       (auto simp: update_def Let_def)
  have "s1 = (if changed then sD\<lparr>frameNumber := Suc (frameNumber sD)\<rparr> else sD)" "k = frameNumber s1"
    using assms u r t b d by (auto simp: update_def Let_def)
  then show thesis using that u r t b d by blast
qed

lemma pruneRequests_fields [simp]:
  "opts (pruneRequests s) = opts s" "cache (pruneRequests s) = cache s"
  "dirty (pruneRequests s) = dirty s" "tiles (pruneRequests s) = tiles s"
  "cacheByteSize (pruneRequests s) = cacheByteSize s" "viewport (pruneRequests s) = viewport s"
  "selectedTiles (pruneRequests s) = selectedTiles s" "frameNumber (pruneRequests s) = frameNumber s"
  "modelMatrix (pruneRequests s) = modelMatrix s" "priv_maxZoom (pruneRequests s) = priv_maxZoom s"
  "priv_minZoom (pruneRequests s) = priv_minZoom s" "nextAddr (pruneRequests s) = nextAddr s"
  "unloadLog (pruneRequests s) = unloadLog s" "loadLog (pruneRequests s) = loadLog s"
  by (simp_all add: pruneRequests_def)

lemma resizeCache_nextAddr: "resizeCache s = Inr s1 \<Longrightarrow> nextAddr s1 = nextAddr s"
  by (cases rule: resizeCache_cases, assumption) (erule ssubst, simp)+

section \<open>Recomputing the flags and aborting loads\<close>

lemma fold_resetFlags_apply:
  "fold resetFlags xs h b =
     (if b \<in> set xs then (h b)\<lparr>isSelected := False, isVisible := False\<rparr> else h b)"
proof -
  have eq: "resetFlags = (\<lambda>a. updTile a (\<lambda>t. t\<lparr>isSelected := False, isVisible := False\<rparr>))"
    by (intro ext) (simp add: resetFlags_def)
  show ?thesis unfolding eq by (rule fold_updTile_idem) simp
qed

lemma fold_selectFlags_apply:
  "fold selectFlags xs h b =
     (if b \<in> set xs then (h b)\<lparr>isSelected := True, isVisible := True\<rparr> else h b)"
proof -
  have eq: "selectFlags = (\<lambda>a. updTile a (\<lambda>t. t\<lparr>isSelected := True, isVisible := True\<rparr>))"
    by (intro ext) (simp add: selectFlags_def)
  show ?thesis unfolding eq by (rule fold_updTile_idem) simp
qed

lemma updateTileStates_frame:
  "updateTileStates n s = Inr (s1, changed) \<Longrightarrow> s1 = s\<lparr>heap := heap s1\<rparr>"
  by (auto simp: updateTileStates_def Let_def split: option.splits)

lemma abortLoop_take:
  "abortLoop mr cnt cands h =
     fold (\<lambda>t. updTile t abort) (take (if mr > 0 then nat (cnt - mr) else 0) cands) h"
proof (induction mr cnt cands h rule: abortLoop.induct)
  case (1 mr cnt h)
  then show ?case by simp
next
  case (2 mr cnt t ts h)
  show ?case
  proof (cases "mr > 0 \<and> cnt > mr")
    case True
    then have "nat (cnt - mr) = Suc (nat (cnt - 1 - mr))" by linarith
    then show ?thesis using 2 True by simp
  next
    case False
    then show ?thesis by auto
  qed
qed

lemma abort_idem: "abort (abort t) = abort t"
  by (simp add: abort_def)

lemma fold_abort_apply:
  "fold (\<lambda>t. updTile t abort) xs h b = (if b \<in> set xs then abort (h b) else h b)"
  by (rule fold_updTile_idem) (rule abort_idem)

section \<open>The loop of reloadAll\<close>

lemma reloadLoop_frame:
  "reloadLoop es s = s\<lparr>cache := cache (reloadLoop es s), heap := heap (reloadLoop es s)\<rparr>"
  by (induction es s rule: reloadLoop.induct) (auto split: option.splits)

lemma reloadLoop_selected [simp]: "selectedTiles (reloadLoop es s) = selectedTiles s"
  by (induction es s rule: reloadLoop.induct) (auto split: option.splits)

lemma reloadLoop_unloadLog [simp]: "unloadLog (reloadLoop es s) = unloadLog s"
  by (induction es s rule: reloadLoop.induct) (auto split: option.splits)

lemma reloadLoop_cache:
  "cache (reloadLoop es s) =
     filter (\<lambda>e. fst e \<notin> fst ` {d \<in> set es. \<not> inSelection s (snd d)}) (cache s)"
proof (induction es s rule: reloadLoop.induct)
  case (1 s)
  then show ?case by simp
next
  case (2 cacheKey a rest s)
  show ?case
  proof (cases "inSelection s a")
    case True
    then have "cache (reloadLoop ((cacheKey, a) # rest) s) = cache (reloadLoop rest (s\<lparr>heap := updTile a setNeedsReload (heap s)\<rparr>))"
      by (auto simp: inSelection_def split: option.splits)
    also have "\<dots> = filter (\<lambda>e. fst e \<notin> fst ` {d \<in> set rest. \<not> inSelection s (snd d)}) (cache s)"
      using 2(2) True by (auto simp: inSelection_def split: option.splits)
    also have "\<dots> = filter (\<lambda>e. fst e \<notin> fst ` {d \<in> set ((cacheKey, a) # rest). \<not> inSelection s (snd d)}) (cache s)"
      using True by (intro filter_cong) auto
    finally show ?thesis .
  next
    case False
    then have "cache (reloadLoop ((cacheKey, a) # rest) s) = cache (reloadLoop rest (s\<lparr>cache := cacheDelete cacheKey (cache s)\<rparr>))"
      by (auto simp: inSelection_def split: option.splits)
    also have "\<dots> = filter (\<lambda>e. fst e \<notin> fst ` {d \<in> set rest. \<not> inSelection s (snd d)}) (cacheDelete cacheKey (cache s))"
      using 2(1) False by (auto simp: inSelection_def split: option.splits)
    also have "\<dots> = filter (\<lambda>e. fst e \<notin> fst ` {d \<in> set ((cacheKey, a) # rest). \<not> inSelection s (snd d)}) (cache s)"
      using False unfolding cacheDelete_def filter_filter by (intro filter_cong) (auto simp: image_iff)
    finally show ?thesis .
  qed
qed

lemma reloadLoop_heap:
  "heap (reloadLoop es s) b =
     (if b \<in> snd ` {d \<in> set es. inSelection s (snd d)} then setNeedsReload (heap s b) else heap s b)"
proof (induction es s rule: reloadLoop.induct)
  case (1 s)
  then show ?case by simp
next
  case (2 cacheKey a rest s)
  show ?case
  proof (cases "inSelection s a")
    case True
    then have "heap (reloadLoop ((cacheKey, a) # rest) s) b = heap (reloadLoop rest (s\<lparr>heap := updTile a setNeedsReload (heap s)\<rparr>)) b"
      by (auto simp: inSelection_def split: option.splits)
    also have "\<dots> = (if b \<in> snd ` {d \<in> set rest. inSelection s (snd d)} then setNeedsReload (updTile a setNeedsReload (heap s) b) else updTile a setNeedsReload (heap s) b)"
      using 2(2) True by (auto simp: inSelection_def split: option.splits)
    finally show ?thesis using True by (auto simp: setNeedsReload_def image_iff updTile_apply)
  next
    case False
    then have "heap (reloadLoop ((cacheKey, a) # rest) s) b = heap (reloadLoop rest (s\<lparr>cache := cacheDelete cacheKey (cache s)\<rparr>)) b"
      by (auto simp: inSelection_def split: option.splits)
    also have "\<dots> = (if b \<in> snd ` {d \<in> set rest. inSelection s (snd d)} then setNeedsReload (heap s b) else heap s b)"
      using 2(1) False by (auto simp: inSelection_def split: option.splits)
    finally show ?thesis using False by (auto simp: image_iff)
  qed
qed

section \<open>Cache keys name one index\<close>

lemma digit_char_is_digit: "d < 10 \<Longrightarrow> is_digit (digit_char d)"
  by (simp add: is_digit_def digit_char_def)

lemma digit_val_digit_char: "d < 10 \<Longrightarrow> digit_val (digit_char d) = d"
  by (simp add: digit_val_def digit_char_def)

lemma minus_not_digit: "\<not> is_digit CHR ''-''"
  by (simp add: is_digit_def)

lemma digits_all_digit: "\<forall>c \<in> set (digits n). is_digit c"
proof (induction n rule: digits.induct)
  case (1 n)
  show ?case
  proof (cases "n < 10")
    case True
    then show ?thesis by (subst digits.simps) (simp add: digit_char_is_digit)
  next
    case False
    then show ?thesis using 1 by (subst digits.simps) (simp add: digit_char_is_digit)
  qed
qed

lemma digits_nonempty: "digits n \<noteq> []"
  by (subst digits.simps) simp

lemma undigits_snoc: "undigits (cs @ [c]) = 10 * undigits cs + digit_val c"
  by (simp add: undigits_def)

lemma undigits_digits: "undigits (digits n) = n"
proof (induction n rule: digits.induct)
  case (1 n)
  show ?case
  proof (cases "n < 10")
    case True
    then show ?thesis by (subst digits.simps) (simp add: undigits_def digit_val_digit_char)
  next
    case False
    then have "undigits (digits n) = 10 * undigits (digits (n div 10)) + digit_val (digit_char (n mod 10))"
      by (subst digits.simps) (simp add: undigits_snoc)
    then show ?thesis using 1 False by (simp add: digit_val_digit_char)
  qed
qed

lemma digits_inj: "digits n = digits m \<Longrightarrow> n = m"
proof -
  assume "digits n = digits m"
  then have "undigits (digits n) = undigits (digits m)" by simp
  then show "n = m" unfolding undigits_digits .
qed

lemma show_int_nonempty: "show_int v \<noteq> []"
  by (simp add: show_int_def digits_nonempty)

lemma last_show_int_digit: "is_digit (last (show_int v))"
  using digits_all_digit[of "nat v"] digits_all_digit[of "nat (- v)"]
    last_in_set[OF digits_nonempty]
  by (auto simp: show_int_def digits_nonempty)

lemma show_int_inj: "show_int v = show_int w \<Longrightarrow> v = w"
proof -
  assume e: "show_int v = show_int w"
  have hd_digit: "is_digit (hd (digits n))" for n
    using digits_all_digit[of n] hd_in_set[OF digits_nonempty] by blast
  have sign: "(v < 0) = (w < 0)"
  proof (rule ccontr)
    assume "(v < 0) \<noteq> (w < 0)"
    then consider "v < 0" "\<not> w < 0" | "\<not> v < 0" "w < 0" by blast
    then show False
    proof cases
      case 1
      then have "CHR ''-'' # digits (nat (- v)) = digits (nat w)" using e by (simp add: show_int_def)
      then have "hd (digits (nat w)) = CHR ''-''" by (metis list.sel(1))
      then show False using hd_digit[of "nat w"] minus_not_digit by simp
    next
      case 2
      then have "CHR ''-'' # digits (nat (- w)) = digits (nat v)" using e by (simp add: show_int_def)
      then have "hd (digits (nat v)) = CHR ''-''" by (metis list.sel(1))
      then show False using hd_digit[of "nat v"] minus_not_digit by simp
    qed
  qed
  show "v = w"
  proof (cases "v < 0")
    case True
    then have "digits (nat (- v)) = digits (nat (- w))" using e sign by (simp add: show_int_def)
    then have "nat (- v) = nat (- w)" by (rule digits_inj)
    then show ?thesis using True sign by linarith
  next
    case False
    then have "digits (nat v) = digits (nat w)" using e sign by (simp add: show_int_def)
    then have "nat v = nat w" by (rule digits_inj)
    then show ?thesis using False sign by linarith
  qed
qed

lemma takeWhile_digits_minus:
  "\<forall>c \<in> set ds. is_digit c \<Longrightarrow> takeWhile is_digit (ds @ CHR ''-'' # rest) = ds"
  by (induction ds) (simp_all add: minus_not_digit)

lemma dropWhile_digits_minus:
  "\<forall>c \<in> set ds. is_digit c \<Longrightarrow> dropWhile is_digit (ds @ CHR ''-'' # rest) = CHR ''-'' # rest"
  by (induction ds) (simp_all add: minus_not_digit)

lemma rev_key_shape:
  "rev (P @ CHR ''-'' # show_int v) =
     rev (digits (nat \<bar>v\<bar>)) @ CHR ''-'' # (if v < 0 then CHR ''-'' # rev P else rev P)"
  by (simp add: show_int_def abs_if)

lemma rev_key_take:
  "takeWhile is_digit (rev (P @ CHR ''-'' # show_int v)) = rev (digits (nat \<bar>v\<bar>))"
  unfolding rev_key_shape by (rule takeWhile_digits_minus) (use digits_all_digit in simp)

lemma rev_key_drop:
  "dropWhile is_digit (rev (P @ CHR ''-'' # show_int v)) =
     CHR ''-'' # (if v < 0 then CHR ''-'' # rev P else rev P)"
  unfolding rev_key_shape by (rule dropWhile_digits_minus) (use digits_all_digit in simp)

lemma key_suffix_inj:
  assumes "P @ CHR ''-'' # show_int v = Q @ CHR ''-'' # show_int w"
    and "P \<noteq> []" "is_digit (last P)" "Q \<noteq> []" "is_digit (last Q)"
  shows "v = w \<and> P = Q"
proof -
  have "rev (digits (nat \<bar>v\<bar>)) = rev (digits (nat \<bar>w\<bar>))"
    using rev_key_take[of P v] rev_key_take[of Q w] assms(1) by simp
  then have "digits (nat \<bar>v\<bar>) = digits (nat \<bar>w\<bar>)" by simp
  then have "nat \<bar>v\<bar> = nat \<bar>w\<bar>" by (rule digits_inj)
  then have a: "\<bar>v\<bar> = \<bar>w\<bar>" by linarith
  have d: "(if v < 0 then CHR ''-'' # rev P else rev P) = (if w < 0 then CHR ''-'' # rev Q else rev Q)"
    using rev_key_drop[of P v] rev_key_drop[of Q w] assms(1) by simp
  have hP: "hd (rev P) \<noteq> CHR ''-''" "hd (rev Q) \<noteq> CHR ''-''"
    using assms(2-5) minus_not_digit by (auto simp: hd_rev)
  have sign: "(v < 0) = (w < 0)"
  proof (rule ccontr)
    assume "(v < 0) \<noteq> (w < 0)"
    then consider "v < 0" "\<not> w < 0" | "\<not> v < 0" "w < 0" by blast
    then show False
    proof cases
      case 1
      then have "CHR ''-'' # rev P = rev Q" using d by simp
      then have "hd (rev Q) = CHR ''-''" by (metis list.sel(1))
      then show False using hP by simp
    next
      case 2
      then have "rev P = CHR ''-'' # rev Q" using d by simp
      then have "hd (rev P) = CHR ''-''" by (metis list.sel(1))
      then show False using hP by simp
    qed
  qed
  have "rev P = rev Q" using d sign by (auto split: if_splits)
  then have "P = Q" by simp
  moreover have "v = w" using a sign by linarith
  ultimately show ?thesis by simp
qed

lemma getTileCacheKey_inj: "getTileCacheKey i = getTileCacheKey j \<Longrightarrow> i = j"
proof -
  assume e: "getTileCacheKey i = getTileCacheKey j"
  let ?P = "show_int (tx i) @ CHR ''-'' # show_int (ty i)"
  let ?Q = "show_int (tx j) @ CHR ''-'' # show_int (ty j)"
  have e1: "?P @ CHR ''-'' # show_int (tz i) = ?Q @ CHR ''-'' # show_int (tz j)"
    using e by (simp add: getTileCacheKey_def)
  have lP: "is_digit (last ?P)" "is_digit (last ?Q)"
    using last_show_int_digit show_int_nonempty by simp_all
  have z: "tz i = tz j" and pq: "?P = ?Q"
    using key_suffix_inj[OF e1 _ lP(1) _ lP(2)] by simp_all
  have y: "ty i = ty j" and x: "show_int (tx i) = show_int (tx j)"
    using key_suffix_inj[OF pq show_int_nonempty last_show_int_digit show_int_nonempty last_show_int_digit]
    by simp_all
  have "tx i = tx j" using x by (rule show_int_inj)
  then show "i = j" using y z by simp
qed

lemma undefined_key_not_tile: "getTileCacheKey i \<noteq> undefinedCacheKey"
proof
  assume e: "getTileCacheKey i = undefinedCacheKey"
  have "last (getTileCacheKey i) = last (show_int (tz i))"
    by (simp add: getTileCacheKey_def show_int_nonempty)
  moreover have "last undefinedCacheKey = CHR ''d''" by (simp add: undefinedCacheKey_def)
  ultimately have "last (show_int (tz i)) = CHR ''d''" using e by simp
  then show False using last_show_int_digit[of "tz i"] by (simp add: is_digit_def)
qed

lemma treeView_blind [simp]:
  "loadBlind treeView" "markBlind treeView" "abortBlind treeView" "flagBlind treeView"
  by (simp_all add: loadBlind_def markBlind_def abortBlind_def flagBlind_def treeView_def
      loadData_def abort_def)

lemma treeView_eq:
  "treeView t = treeView u \<longleftrightarrow>
     index t = index u \<and> zoom t = zoom u \<and> parent t = parent u \<and> children t = children u"
  by (auto simp: treeView_def)

lemma consistent_same_tree:
  assumes "consistent s" "set (cache s1) \<subseteq> set (cache s)" "nextAddr s \<le> nextAddr s1"
    and "\<And>b. b < nextAddr s \<Longrightarrow> treeView (heap s1 b) = treeView (heap s b)"
  shows "consistent s1"
proof -
  have w: "cacheWf s" and pa: "parentsAllocated s" and tl: "treeLinked s"
    using assms(1) by (simp_all add: consistent_def)
  have same: "index (heap s1 b) = index (heap s b)" "zoom (heap s1 b) = zoom (heap s b)"
     "parent (heap s1 b) = parent (heap s b)" "children (heap s1 b) = children (heap s b)"
    if "b < nextAddr s" for b
    using assms(4)[OF that] by (simp_all add: treeView_eq)
  have lt: "snd e < nextAddr s" if "e \<in> set (cache s1)" for e
    using that assms(2) w by (auto simp: cacheWf_def)
  have "cacheWf s1"
    unfolding cacheWf_def
  proof
    fix e assume e: "e \<in> set (cache s1)"
    then have "e \<in> set (cache s)" using assms(2) by auto
    then have "snd e < nextAddr s \<and> fst e = getTileCacheKey (index (heap s (snd e))) \<and>
        zoom (heap s (snd e)) = tz (index (heap s (snd e)))"
      using w unfolding cacheWf_def by blast
    then show "snd e < nextAddr s1 \<and> fst e = getTileCacheKey (index (heap s1 (snd e))) \<and>
        zoom (heap s1 (snd e)) = tz (index (heap s1 (snd e)))"
      using same[OF lt[OF e]] assms(3) by simp
  qed
  moreover have "parentsAllocated s1"
    unfolding parentsAllocated_def
  proof (intro ballI allI impI)
    fix t p assume t: "t \<in> snd ` set (cache s1)" and p: "parent (heap s1 t) = Some p"
    then obtain e where e: "e \<in> set (cache s1)" "t = snd e" by auto
    have "t \<in> snd ` set (cache s)" using t assms(2) by auto
    moreover have "parent (heap s t) = Some p" using p same(3)[OF lt[OF e(1)]] e(2) by simp
    ultimately have "p < nextAddr s" using pa unfolding parentsAllocated_def by blast
    then show "p < nextAddr s1" using assms(3) by simp
  qed
  moreover have "treeLinked s1"
    unfolding treeLinked_def
  proof (intro ballI allI impI)
    fix t p assume t: "t \<in> snd ` set (cache s1)" and p: "parent (heap s1 t) = Some p"
    then obtain e where e: "e \<in> set (cache s1)" "t = snd e" by auto
    have ts: "t \<in> snd ` set (cache s)" using t assms(2) by auto
    have tl': "t < nextAddr s" using lt[OF e(1)] e(2) by simp
    have ps: "parent (heap s t) = Some p" using p same(3)[OF tl'] by simp
    then have pl: "p < nextAddr s" using pa ts unfolding parentsAllocated_def by blast
    have "zoom (heap s p) < zoom (heap s t) \<and> t \<in> set (children (heap s p))"
      using tl ts ps unfolding treeLinked_def by blast
    then show "zoom (heap s1 p) < zoom (heap s1 t) \<and> t \<in> set (children (heap s1 p))"
      using same[OF tl'] same[OF pl] by simp
  qed
  ultimately show ?thesis by (simp add: consistent_def)
qed

lemma cacheWf_entry:
  "cacheWf s \<Longrightarrow> (k, a) \<in> set (cache s) \<Longrightarrow>
   a < nextAddr s \<and> k = getTileCacheKey (index (heap s a)) \<and> zoom (heap s a) = tz (index (heap s a))"
proof -
  assume "cacheWf s" and m: "(k, a) \<in> set (cache s)"
  then have "\<forall>e \<in> set (cache s).
        snd e < nextAddr s \<and>
        fst e = getTileCacheKey (index (heap s (snd e))) \<and>
        zoom (heap s (snd e)) = tz (index (heap s (snd e)))"
    by (simp add: cacheWf_def)
  from bspec[OF this m] show ?thesis by simp
qed

lemma cacheWf_mem:
  "cacheWf s \<Longrightarrow> a \<in> snd ` set (cache s) \<Longrightarrow>
   a < nextAddr s \<and> zoom (heap s a) = tz (index (heap s a))"
proof -
  assume w: "cacheWf s" and "a \<in> snd ` set (cache s)"
  then obtain k where "(k, a) \<in> set (cache s)" by force
  then show ?thesis using cacheWf_entry[OF w] by blast
qed

section \<open>The nearest ancestor\<close>

lemma getTileByKey_None:
  "map_of (cache s) k = None \<Longrightarrow> getTileByKey k s = (s, None)"
  by (simp add: getTileByKey_def)

lemma ancestorWalk_found:
  assumes "cacheWf s" "ancestorWalk mz i s = (s1, Some q)"
  shows "q \<in> snd ` set (cache s) \<and> tz (index (heap s q)) < tz i"
  using assms
proof (induction mz i s rule: ancestorWalk.induct)
  case (1 mz i s)
  have z: "getTileZoom i > mz"
    using 1(3) by (subst (asm) ancestorWalk.simps) (auto split: if_splits)
  let ?k = "getTileCacheKey (getParentIndex i)"
  show ?case
  proof (cases "map_of (cache s) ?k")
    case None
    then have g: "getTile (getParentIndex i) False s = (s, None)"
      by (simp add: getTile_False getTileByKey_None)
    then have "ancestorWalk mz (getParentIndex i) s = (s1, Some q)"
      using 1(3) z by (subst (asm) ancestorWalk.simps) simp
    then have "q \<in> snd ` set (cache s) \<and> tz (index (heap s q)) < tz (getParentIndex i)"
      using 1(1)[OF z g[symmetric] refl 1(2)] by simp
    then show ?thesis by (simp add: getParentIndex_def)
  next
    case (Some a)
    then have "snd (getTile (getParentIndex i) False s) = Some a"
      by (simp add: getTile_False getTileByKey_snd)
    then obtain s2 where g: "getTile (getParentIndex i) False s = (s2, Some a)"
      by (cases "getTile (getParentIndex i) False s") simp
    then have "a = q" using 1(3) z by (subst (asm) ancestorWalk.simps) simp
    have m: "(?k, q) \<in> set (cache s)" using Some \<open>a = q\<close> by (simp add: map_of_SomeD)
    then have "?k = getTileCacheKey (index (heap s q))" using cacheWf_entry[OF 1(2)] by blast
    then have "index (heap s q) = getParentIndex i" using getTileCacheKey_inj by simp
    moreover have "q \<in> snd ` set (cache s)" using m by force
    ultimately show ?thesis by (simp add: getParentIndex_def)
  qed
qed

lemma getNearestAncestor_found:
  assumes "cacheWf s" "getNearestAncestor a s = (s1, Some q)" "a \<in> snd ` set (cache s)"
  shows "q \<in> snd ` set (cache s) \<and> zoom (heap s q) < zoom (heap s a) \<and> q < nextAddr s"
proof -
  have "q \<in> snd ` set (cache s) \<and> tz (index (heap s q)) < tz (index (heap s a))"
    using ancestorWalk_found[OF assms(1)] assms(2) unfolding getNearestAncestor_def by blast
  moreover have "q \<in> snd ` set (cache s) \<Longrightarrow> q < nextAddr s \<and> zoom (heap s q) = tz (index (heap s q))"
    by (rule cacheWf_mem[OF assms(1)])
  moreover have "a < nextAddr s \<and> zoom (heap s a) = tz (index (heap s a))"
    by (rule cacheWf_mem[OF assms(1,3)])
  ultimately show ?thesis by simp
qed

section \<open>Rebuilding the tree\<close>

lemma fold_resetLinks_apply:
  "fold resetLinks xs h b =
     (if b \<in> set xs then (h b)\<lparr>parent := None, children := []\<rparr> else h b)"
proof -
  have eq: "resetLinks = (\<lambda>a. updTile a (\<lambda>t. t\<lparr>parent := None, children := []\<rparr>))"
    by (intro ext) (simp add: resetLinks_def)
  show ?thesis unfolding eq by (rule fold_updTile_idem) simp
qed

lemma linkTiles_consistent:
  assumes "cacheWf s" "parentsAllocated s" "treeLinked s" "set as \<subseteq> snd ` set (cache s)"
  shows "consistent (linkTiles as s)"
  using assms
proof (induction as arbitrary: s)
  case Nil
  then show ?case by (simp add: consistent_def)
next
  case (Cons a as)
  obtain s1 p where g: "getNearestAncestor a s = (s1, p)" by force
  have f1: "s1 = s\<lparr>heap := heap s1\<rparr>"
    using getNearestAncestor_frame[of a s] g by simp
  have c1: "cache s1 = cache s" "nextAddr s1 = nextAddr s" by (subst f1, simp)+
  have v1: "treeView (heap s1 b) = treeView (heap s b)" for b
    using getNearestAncestor_blind[of treeView a s b] g by simp
  define h1 where "h1 = updTile a (\<lambda>t. t\<lparr>parent := p\<rparr>) (heap s1)"
  define h2 where "h2 = (case p of None \<Rightarrow> h1
     | Some q \<Rightarrow> updTile q (\<lambda>t. t\<lparr>children := children t @ [a]\<rparr>) h1)"
  have step: "linkTiles (a # as) s = linkTiles as (s1\<lparr>heap := h2\<rparr>)"
    unfolding h2_def h1_def using g by (simp add: Let_def)
  let ?s2 = "s1\<lparr>heap := h2\<rparr>"
  have ain: "a \<in> snd ` set (cache s)" using Cons.prems(4) by simp
  have found: "q \<in> snd ` set (cache s) \<and> zoom (heap s q) < zoom (heap s a) \<and> q < nextAddr s"
    if "p = Some q" for q
    using getNearestAncestor_found[OF Cons.prems(1) _ ain] g that by simp
  have iz: "index (h2 b) = index (heap s b)" "zoom (h2 b) = zoom (heap s b)" for b
    using v1[of b] by (auto simp: h2_def h1_def updTile_apply treeView_eq split: option.splits)
  have par: "parent (h2 b) = (if b = a then p else parent (heap s b))" for b
    using v1[of b] by (auto simp: h2_def h1_def updTile_apply treeView_eq split: option.splits)
  have chi: "set (children (heap s b)) \<subseteq> set (children (h2 b))" for b
    using v1[of b] by (auto simp: h2_def h1_def updTile_apply treeView_eq split: option.splits)
  have new: "a \<in> set (children (h2 q))" if "p = Some q" for q
    using that by (auto simp: h2_def h1_def updTile_apply)
  have w2: "cacheWf ?s2"
    using Cons.prems(1) unfolding cacheWf_def by (simp add: c1 iz)
  have pa2: "parentsAllocated ?s2"
    unfolding parentsAllocated_def
  proof (intro ballI allI impI)
    fix t q assume t: "t \<in> snd ` set (cache ?s2)" and q: "parent (heap ?s2 t) = Some q"
    show "q < nextAddr ?s2"
    proof (cases "t = a")
      case True
      then have "p = Some q" using q by (simp add: par)
      then show ?thesis using found by (simp add: c1)
    next
      case False
      then have "parent (heap s t) = Some q" using q by (simp add: par)
      moreover have "t \<in> snd ` set (cache s)" using t by (simp add: c1)
      ultimately have "q < nextAddr s" using Cons.prems(2) unfolding parentsAllocated_def by blast
      then show ?thesis by (simp add: c1)
    qed
  qed
  have tl2: "treeLinked ?s2"
    unfolding treeLinked_def
  proof (intro ballI allI impI)
    fix t q assume t: "t \<in> snd ` set (cache ?s2)" and q: "parent (heap ?s2 t) = Some q"
    show "zoom (heap ?s2 q) < zoom (heap ?s2 t) \<and> t \<in> set (children (heap ?s2 q))"
    proof (cases "t = a")
      case True
      then have "p = Some q" using q by (simp add: par)
      then show ?thesis using found[of q] new[of q] True by (simp add: iz)
    next
      case False
      then have "parent (heap s t) = Some q" using q by (simp add: par)
      moreover have "t \<in> snd ` set (cache s)" using t by (simp add: c1)
      ultimately have "zoom (heap s q) < zoom (heap s t) \<and> t \<in> set (children (heap s q))"
        using Cons.prems(3) unfolding treeLinked_def by blast
      then show ?thesis using chi[of q] by (auto simp: iz)
    qed
  qed
  have sub: "set as \<subseteq> snd ` set (cache ?s2)" using Cons.prems(4) by (simp add: c1)
  show ?case unfolding step by (rule Cons.IH[OF w2 pa2 tl2 sub])
qed

lemma rebuildTree_consistent:
  assumes "cacheWf s"
  shows "consistent (rebuildTree s)"
proof -
  let ?vals = "map snd (cache s)"
  let ?s0 = "s\<lparr>heap := fold resetLinks ?vals (heap s)\<rparr>"
  have "cacheWf ?s0"
    using assms unfolding cacheWf_def by (simp add: fold_resetLinks_apply)
  moreover have "parentsAllocated ?s0"
    unfolding parentsAllocated_def by (simp add: fold_resetLinks_apply)
  moreover have "treeLinked ?s0"
    unfolding treeLinked_def by (simp add: fold_resetLinks_apply)
  moreover have "set ?vals \<subseteq> snd ` set (cache ?s0)" by simp
  ultimately have "consistent (linkTiles ?vals ?s0)" by (rule linkTiles_consistent)
  then show ?thesis by (simp add: rebuildTree_def Let_def)
qed

section \<open>Consistency through an update\<close>

lemma consistent_fields:
  assumes "consistent s" "cache s1 = cache s" "nextAddr s1 = nextAddr s" "heap s1 = heap s"
  shows "consistent s1"
  by (rule consistent_same_tree[OF assms(1)]) (simp_all add: assms)

lemma getTileByKey_old:
  "loadBlind f \<Longrightarrow> f (heap (fst (getTileByKey k s)) b) = f (heap s b)"
  by (rule getTileByKey_blind)

lemma getTile_old:
  assumes "loadBlind f" "b < nextAddr s"
  shows "f (heap (fst (getTile i c s)) b) = f (heap s b)"
proof (cases "map_of (cache s) (getTileCacheKey i) = None \<and> c")
  case True
  then show ?thesis using assms(2) by (simp add: getTile_def Let_def)
next
  case False
  then have "getTile i c s = getTileByKey (getTileCacheKey i) s"
    by (auto simp: getTile_def Let_def)
  then show ?thesis using getTileByKey_blind[OF assms(1)] by simp
qed

lemma getTile_cacheWf:
  assumes "cacheWf s"
  shows "cacheWf (fst (getTile i c s))"
proof (cases "map_of (cache s) (getTileCacheKey i) = None \<and> c")
  case True
  let ?a = "nextAddr s"
  let ?t = "loadData ((newTile2DHeader i)\<lparr>zoom := getTileZoom i\<rparr>)"
  have s1: "fst (getTile i c s) = s\<lparr>heap := (heap s)(?a := ?t), nextAddr := Suc ?a,
               cache := cache s @ [(getTileCacheKey i, ?a)], dirty := True\<rparr>"
    using True by (simp add: getTile_def Let_def)
  have new: "index ?t = i" "zoom ?t = tz i"
    by (simp_all add: loadData_def newTile2DHeader_def getTileZoom_def)
  show ?thesis
    unfolding s1 cacheWf_def
  proof
    fix e
    assume "e \<in> set (cache (s\<lparr>heap := (heap s)(?a := ?t), nextAddr := Suc ?a,
               cache := cache s @ [(getTileCacheKey i, ?a)], dirty := True\<rparr>))"
    then consider "e \<in> set (cache s)" | "e = (getTileCacheKey i, ?a)" by auto
    then show "snd e < nextAddr (s\<lparr>heap := (heap s)(?a := ?t), nextAddr := Suc ?a,
               cache := cache s @ [(getTileCacheKey i, ?a)], dirty := True\<rparr>) \<and>
         fst e = getTileCacheKey (index (heap (s\<lparr>heap := (heap s)(?a := ?t), nextAddr := Suc ?a,
               cache := cache s @ [(getTileCacheKey i, ?a)], dirty := True\<rparr>) (snd e))) \<and>
         zoom (heap (s\<lparr>heap := (heap s)(?a := ?t), nextAddr := Suc ?a,
               cache := cache s @ [(getTileCacheKey i, ?a)], dirty := True\<rparr>) (snd e)) =
         tz (index (heap (s\<lparr>heap := (heap s)(?a := ?t), nextAddr := Suc ?a,
               cache := cache s @ [(getTileCacheKey i, ?a)], dirty := True\<rparr>) (snd e)))"
    proof cases
      case 1
      then have "snd e < nextAddr s \<and> fst e = getTileCacheKey (index (heap s (snd e))) \<and>
          zoom (heap s (snd e)) = tz (index (heap s (snd e)))"
        using assms unfolding cacheWf_def by blast
      then show ?thesis by simp
    next
      case 2
      then show ?thesis using new by simp
    qed
  qed
next
  case False
  then have g: "getTile i c s = getTileByKey (getTileCacheKey i) s"
    by (auto simp: getTile_def Let_def)
  let ?s1 = "fst (getTileByKey (getTileCacheKey i) s)"
  have f: "?s1 = s\<lparr>heap := heap ?s1\<rparr>" by (rule getTileByKey_frame)
  have c: "cache ?s1 = cache s" "nextAddr ?s1 = nextAddr s" by (subst f, simp)+
  have "index (heap ?s1 b) = index (heap s b)" "zoom (heap ?s1 b) = zoom (heap s b)" for b
    by (simp_all add: getTileByKey_blind)
  then show ?thesis using assms unfolding g cacheWf_def c by simp
qed

lemma selectTiles_cacheWf: "cacheWf s \<Longrightarrow> cacheWf (fst (selectTiles is s))"
proof (induction "is" arbitrary: s)
  case Nil
  then show ?case by simp
next
  case (Cons i "is")
  show ?case unfolding selectTiles_fst by (rule Cons.IH[OF getTile_cacheWf[OF Cons.prems]])
qed

lemma selectTiles_old:
  assumes "loadBlind f"
  shows "b < nextAddr s \<Longrightarrow> f (heap (fst (selectTiles is s)) b) = f (heap s b)"
proof (induction "is" arbitrary: s)
  case Nil
  then show ?case by simp
next
  case (Cons i "is")
  let ?s1 = "fst (getTile i True s)"
  have "nextAddr s \<le> nextAddr ?s1" using getTile_grows[of s i True] by (simp add: grows_def)
  then have "b < nextAddr ?s1" using Cons.prems by simp
  then have "f (heap (fst (selectTiles is ?s1)) b) = f (heap ?s1 b)" by (rule Cons.IH)
  then show ?case unfolding selectTiles_fst using getTile_old[OF assms Cons.prems] by simp
qed

lemma reselectTiles_blind:
  assumes "loadBlind f"
  shows "f (heap (fst (reselectTiles as s)) b) = f (heap s b)"
proof (induction as arbitrary: s)
  case Nil
  then show ?case by simp
next
  case (Cons a as)
  show ?case unfolding reselectTiles_fst
    using Cons.IH[of "fst (getTileByKey undefinedCacheKey s)"] getTileByKey_blind[OF assms] by simp
qed

lemma updateSelection_consistent:
  assumes "consistent s" "updateSelection gen vp zr mm s = (sA, r)"
  shows "consistent sA"
proof -
  let ?m = "case mm of None \<Rightarrow> identityMatrix | Some m \<Rightarrow> m"
  consider (new) "viewport s \<noteq> Some vp \<or> ?m \<noteq> modelMatrix s"
    | (reload) "\<not> (viewport s \<noteq> Some vp \<or> ?m \<noteq> modelMatrix s)" "tilesetNeedsReload s"
    | (same) "\<not> (viewport s \<noteq> Some vp \<or> ?m \<noteq> modelMatrix s)" "\<not> tilesetNeedsReload s"
    by blast
  then show ?thesis
  proof cases
    case new
    let ?s1 = "s\<lparr>modelMatrix := ?m, viewport := Some vp\<rparr>"
    let ?idx = "gen vp (priv_maxZoom ?s1) (priv_minZoom ?s1) zr (modelMatrix ?s1)"
    obtain s2 sel where st: "selectTiles ?idx ?s1 = (s2, sel)" by force
    have sA: "sA = (if dirty s2 then rebuildTree s2 else s2)"
      using assms(2) new st by (auto simp: updateSelection_def Let_def)
    have c1: "consistent ?s1" by (rule consistent_fields[OF assms(1)]) simp_all
    then have "cacheWf ?s1" by (simp add: consistent_def)
    then have w2: "cacheWf s2" using selectTiles_cacheWf[of ?s1 ?idx] st by simp
    have g: "grows ?s1 s2" using selectTiles_grows[of ?s1 ?idx] st by simp
    show ?thesis
    proof (cases "dirty s2")
      case True
      then show ?thesis unfolding sA using rebuildTree_consistent[OF w2] by simp
    next
      case False
      then have n: "nextAddr s2 = nextAddr ?s1" and c: "cache s2 = cache ?s1"
        using g unfolding grows_def by auto
      have "consistent s2"
      proof (rule consistent_same_tree[OF c1])
        show "set (cache s2) \<subseteq> set (cache ?s1)" using c by simp
        show "nextAddr ?s1 \<le> nextAddr s2" using n by simp
        show "treeView (heap s2 b) = treeView (heap ?s1 b)" if "b < nextAddr ?s1" for b
          using selectTiles_old[of treeView b ?s1 ?idx] that st by simp
      qed
      then show ?thesis unfolding sA using False by simp
    qed
  next
    case reload
    obtain s2 sel where st: "reselectTiles (the (selectedTiles s)) s = (s2, sel)" by force
    have sA: "sA = s2" using assms(2) reload st by (auto simp: updateSelection_def Let_def)
    have f: "s2 = s\<lparr>heap := heap s2\<rparr>"
      using reselectTiles_frame[of "the (selectedTiles s)" s] st by simp
    have c: "cache s2 = cache s" "nextAddr s2 = nextAddr s" by (subst f, simp)+
    show ?thesis unfolding sA
    proof (rule consistent_same_tree[OF assms(1)])
      show "set (cache s2) \<subseteq> set (cache s)" using c by simp
      show "nextAddr s \<le> nextAddr s2" using c by simp
      show "treeView (heap s2 b) = treeView (heap s b)" for b
        using reselectTiles_blind[of treeView "the (selectedTiles s)" s b] st by simp
    qed
  next
    case same
    then have "sA = s" using assms(2) by (auto simp: updateSelection_def Let_def)
    then show ?thesis using assms(1) by simp
  qed
qed

lemma fold_flags_blind:
  "flagBlind f \<Longrightarrow> f (fold selectFlags ys (fold resetFlags xs h) b) = f (h b)"
  by (simp add: fold_selectFlags_apply fold_resetFlags_apply flagBlind_def)

lemma updateTileStates_steps:
  assumes "updateTileStates n s = Inr (s1, changed)"
  obtains sel where "selectedTiles s = Some sel"
    "STRATEGIES (chosenStrategy s) n (map snd (cache s))
       (fold selectFlags sel (fold resetFlags (map snd (cache s)) (heap s))) = Some (heap s1)"
    "s1 = s\<lparr>heap := heap s1\<rparr>"
    "changed = (map (\<lambda>a. isVisible (heap s a)) (map snd (cache s)) \<noteq>
                map (\<lambda>a. isVisible (heap s1 a)) (map snd (cache s)))"
proof -
  obtain sel where sel: "selectedTiles s = Some sel"
    using assms by (cases "selectedTiles s") (auto simp: updateTileStates_def)
  let ?h2 = "fold selectFlags sel (fold resetFlags (map snd (cache s)) (heap s))"
  obtain h3 where h3: "STRATEGIES (chosenStrategy s) n (map snd (cache s)) ?h2 = Some h3"
    using assms sel
    by (cases "STRATEGIES (chosenStrategy s) n (map snd (cache s)) ?h2")
       (auto simp: updateTileStates_def Let_def chosenStrategy_def)
  have r: "s1 = s\<lparr>heap := h3\<rparr>"
    "changed = (map (\<lambda>a. isVisible (heap s a)) (map snd (cache s)) \<noteq>
                map (\<lambda>a. isVisible (h3 a)) (map snd (cache s)))"
    using assms sel h3 by (auto simp: updateTileStates_def Let_def chosenStrategy_def)
  then have "heap s1 = h3" by simp
  then show thesis using that sel h3 r by simp
qed

lemma updateTileStates_blind:
  assumes "updateTileStates n s = Inr (s1, changed)" "markBlind f" "flagBlind f"
  shows "f (heap s1 b) = f (heap s b)"
  using assms(1)
proof (cases rule: updateTileStates_steps)
  case (1 sel)
  show ?thesis
    using STRATEGIES_blind[OF 1(2) assms(2), of b] fold_flags_blind[OF assms(3)] by simp
qed

lemma pruneRequests_blind:
  assumes "abortBlind f"
  shows "f (heap (pruneRequests s) b) = f (heap s b)"
  using assms
  by (simp add: pruneRequests_def abortLoop_take fold_abort_apply abortBlind_def)

lemma evictScan_cache_subset: "set (cache (evictScan ms mb es s)) \<subseteq> set (cache s)"
proof (induction es arbitrary: s)
  case Nil
  then show ?case by simp
next
  case (Cons ka rest)
  obtain k a where ka: "ka = (k, a)" by (cases ka)
  define s1 where "s1 = (if \<not> isVisible (heap s a) then
                  s\<lparr>cacheByteSize :=
                      cacheByteSize s -
                        (if truthy (maxCacheByteSize (opts s)) then int (byteLength (heap s a)) else 0),
                    cache := cacheDelete k (cache s),
                    unloadLog := unloadLog s @ [a]\<rparr>
                else s)"
  have c1: "set (cache s1) \<subseteq> set (cache s)" by (auto simp: s1_def cacheDelete_def)
  have "evictScan ms mb (ka # rest) s = (if withinLimits ms mb s1 then s1 else evictScan ms mb rest s1)"
    unfolding ka evictScan_step s1_def by (simp add: Let_def)
  then show ?case using Cons.IH[of s1] c1 by auto
qed

lemma resizeCache_consistent:
  assumes "consistent s" "resizeCache s = Inr s1"
  shows "consistent s1"
  using assms(2)
proof (cases rule: resizeCache_cases)
  case (evict sel)
  let ?e = "evictScan (effMaxCacheSize (opts s) (length sel)) (effMaxCacheByteSize (opts s)) (cache s) s"
  have "consistent ?e"
    by (rule consistent_same_tree[OF assms(1)]) (simp_all add: evictScan_cache_subset)
  then have "consistent (rebuildTree ?e)" using rebuildTree_consistent by (simp add: consistent_def)
  then show ?thesis
    by (rule consistent_fields) (subst evict(3), simp)+
next
  case (keep sel)
  show ?thesis
    by (rule consistent_fields[OF assms(1)]) (subst keep(3), simp)+
qed

lemma update_consistent:
  assumes "consistent s" "update n gen vp zr mm s = Inr (s1, k)"
  shows "consistent s1"
  using assms(2)
proof (cases rule: update_steps)
  case (1 sA osel sel sB changed sD)
  have cA: "consistent sA" using updateSelection_consistent[OF assms(1) 1(1)] .
  let ?sA = "sA\<lparr>selectedTiles := Some sel\<rparr>"
  have cA': "consistent ?sA" by (rule consistent_fields[OF cA]) simp_all
  have fB: "sB = ?sA\<lparr>heap := heap sB\<rparr>" using updateTileStates_frame[OF 1(3)] .
  have cB: "consistent sB"
  proof (rule consistent_same_tree[OF cA'])
    show "set (cache sB) \<subseteq> set (cache ?sA)" by (subst fB) simp
    show "nextAddr ?sA \<le> nextAddr sB" by (subst fB) simp
    show "treeView (heap sB b) = treeView (heap ?sA b)" for b
      using updateTileStates_blind[OF 1(3), of treeView b] by simp
  qed
  have cP: "consistent (pruneRequests sB)"
    by (rule consistent_same_tree[OF cB]) (simp_all add: pruneRequests_blind)
  have cD: "consistent sD"
    using 1(4) cP resizeCache_consistent[OF cP] by (auto split: if_splits)
  show ?thesis
    by (rule consistent_fields[OF cD]) (simp_all add: 1(5))
qed

lemma setOptions_fields [simp]:
  "cache (setOptions props s) = cache s" "heap (setOptions props s) = heap s"
  "nextAddr (setOptions props s) = nextAddr s" "dirty (setOptions props s) = dirty s"
  "selectedTiles (setOptions props s) = selectedTiles s"
  "unloadLog (setOptions props s) = unloadLog s" "opts (setOptions props s) = props"
  by (simp_all add: setOptions_def Let_def split: option.splits jsnumber.splits)

lemma consistent_empty: "cache s = [] \<Longrightarrow> consistent s"
  by (simp add: consistent_def cacheWf_def parentsAllocated_def treeLinked_def)

lemma reloadLoop_nextAddr [simp]: "nextAddr (reloadLoop es s) = nextAddr s"
  by (subst reloadLoop_frame) simp

lemma reloadAll_consistent: "consistent s \<Longrightarrow> consistent (reloadAll s)"
proof (rule consistent_same_tree)
  show "set (cache (reloadAll s)) \<subseteq> set (cache s)"
    by (auto simp: reloadAll_def reloadLoop_cache)
  show "nextAddr s \<le> nextAddr (reloadAll s)" by (simp add: reloadAll_def)
  show "treeView (heap (reloadAll s) b) = treeView (heap s b)" for b
    by (simp add: reloadAll_def reloadLoop_heap treeView_def setNeedsReload_def)
qed

lemma onTileLoad_consistent:
  assumes "consistent s" "onTileLoad a s = Inr s1"
  shows "consistent s1"
proof (cases "truthy (maxCacheByteSize (opts s))")
  case True
  let ?s2 = "s\<lparr>loadLog := loadLog s @ [a]\<rparr>\<lparr>cacheByteSize :=
      cacheByteSize s + int (byteLength (heap s a))\<rparr>"
  have "consistent ?s2" by (rule consistent_fields[OF assms(1)]) simp_all
  moreover have "resizeCache ?s2 = Inr s1" using assms(2) True by (simp add: onTileLoad_def Let_def)
  ultimately show ?thesis by (rule resizeCache_consistent)
next
  case False
  then have "s1 = s\<lparr>loadLog := loadLog s @ [a]\<rparr>" using assms(2) by (simp add: onTileLoad_def Let_def)
  then show ?thesis using consistent_fields[OF assms(1), of s1] by simp
qed

lemma loadResolved_consistent:
  assumes "consistent s" "loadResolved a c n s = Inr s1"
  shows "consistent s1"
proof (cases "isLoading (heap s a)")
  case True
  let ?s2 = "s\<lparr>heap := updTile a (\<lambda>t. t\<lparr>load_state := Loaded, content := c, byte_length := n\<rparr>) (heap s)\<rparr>"
  have "consistent ?s2"
    by (rule consistent_same_tree[OF assms(1)]) (simp_all add: updTile_apply treeView_def)
  moreover have "onTileLoad a ?s2 = Inr s1" using assms(2) True by (simp add: loadResolved_def)
  ultimately show ?thesis by (rule onTileLoad_consistent)
next
  case False
  then show ?thesis using assms by (simp add: loadResolved_def)
qed

lemma loadFailed_consistent:
  assumes "consistent s"
  shows "consistent (loadFailed a s)"
proof (cases "isLoading (heap s a)")
  case True
  let ?s2 = "s\<lparr>heap := updTile a (\<lambda>t. t\<lparr>load_state := Errored, content := None\<rparr>) (heap s)\<rparr>"
  have "consistent ?s2"
    by (rule consistent_same_tree[OF assms]) (simp_all add: updTile_apply treeView_def)
  then show ?thesis using True by (simp add: loadFailed_def)
next
  case False
  then show ?thesis using assms by (simp add: loadFailed_def)
qed

lemma reachable_consistent: "reachable s \<Longrightarrow> consistent s"
proof (induction rule: reachable.induct)
  case (created props)
  show ?case by (rule consistent_empty) (simp add: newTileset2D_def)
next
  case (setOptions s props)
  show ?case by (rule consistent_fields[OF setOptions.IH]) simp_all
next
  case (update s n gen vp zr mm s1 k)
  then show ?case using update_consistent by blast
next
  case (reloadAll s)
  then show ?case by (simp add: reloadAll_consistent)
next
  case (finalize s)
  show ?case by (rule consistent_empty) (simp add: finalize_def)
next
  case (loadResolved s a c n s1)
  then show ?case using loadResolved_consistent by blast
next
  case (loadFailed s a)
  then show ?case by (simp add: loadFailed_consistent)
qed

section \<open>What the placeholder walks mark\<close>

lemma hasContent_mark [simp]:
  "hasContent (updTile a (\<lambda>t. t\<lparr>state := f t\<rparr>) h b) = hasContent (h b)"
  by (simp add: updTile_apply hasContent_def isLoaded_def)








section \<open>Two passes over the same tree\<close>

text \<open>A strategy reads the links, the zoom, the presence of content and the selection
  flag of the tiles; two stores that agree on these give the same visibilities.\<close>

lemma sim_fields:
  "sim T h k \<Longrightarrow> parent (h b) = parent (k b)"
  "sim T h k \<Longrightarrow> children (h b) = children (k b)"
  "sim T h k \<Longrightarrow> zoom (h b) = zoom (k b)"
  "sim T h k \<Longrightarrow> hasContent (h b) = hasContent (k b)"
  "sim T h k \<Longrightarrow> isSelected (h b) = isSelected (k b)"
  "sim T h k \<Longrightarrow> b \<in> T \<Longrightarrow> state (h b) = state (k b)"
  "sim T h k \<Longrightarrow> b \<in> T \<Longrightarrow> isVisible (h b) = isVisible (k b)"
  by (simp_all add: sim_def)

lemma hasContent_state [simp]: "hasContent (t\<lparr>state := v\<rparr>) = hasContent t"
  by (simp add: hasContent_def isLoaded_def)

lemma hasContent_isVisible [simp]: "hasContent (t\<lparr>isVisible := v\<rparr>) = hasContent t"
  by (simp add: hasContent_def isLoaded_def)

lemma sim_state:
  assumes "sim T h k" "\<And>t u. state t = state u \<Longrightarrow> f t = f u"
  shows "sim T (updTile a (\<lambda>t. t\<lparr>state := f t\<rparr>) h) (updTile a (\<lambda>t. t\<lparr>state := f t\<rparr>) k)"
  unfolding sim_def
proof (intro allI)
  fix b
  show "parent (updTile a (\<lambda>t. t\<lparr>state := f t\<rparr>) h b) = parent (updTile a (\<lambda>t. t\<lparr>state := f t\<rparr>) k b) \<and>
       children (updTile a (\<lambda>t. t\<lparr>state := f t\<rparr>) h b) = children (updTile a (\<lambda>t. t\<lparr>state := f t\<rparr>) k b) \<and>
       zoom (updTile a (\<lambda>t. t\<lparr>state := f t\<rparr>) h b) = zoom (updTile a (\<lambda>t. t\<lparr>state := f t\<rparr>) k b) \<and>
       hasContent (updTile a (\<lambda>t. t\<lparr>state := f t\<rparr>) h b) = hasContent (updTile a (\<lambda>t. t\<lparr>state := f t\<rparr>) k b) \<and>
       isSelected (updTile a (\<lambda>t. t\<lparr>state := f t\<rparr>) h b) = isSelected (updTile a (\<lambda>t. t\<lparr>state := f t\<rparr>) k b) \<and>
       (b \<in> T \<longrightarrow> state (updTile a (\<lambda>t. t\<lparr>state := f t\<rparr>) h b) = state (updTile a (\<lambda>t. t\<lparr>state := f t\<rparr>) k b) \<and>
          isVisible (updTile a (\<lambda>t. t\<lparr>state := f t\<rparr>) h b) = isVisible (updTile a (\<lambda>t. t\<lparr>state := f t\<rparr>) k b))"
    using sim_fields[OF assms(1), of b] assms(2)[of "h a" "k a"]
    by (auto simp: updTile_apply)
qed



lemma sim_clearState: "sim T h k \<Longrightarrow> sim T (clearState a h) (clearState a k)"
  unfolding clearState_def by (rule sim_state) simp_all












subsection \<open>More fuel gives the same result\<close>








subsection \<open>The fields an update leaves alone\<close>









lemma placeholderView_blind [simp]:
  "markBlind placeholderView" "abortBlind placeholderView" "flagBlind placeholderView"
  by (simp_all add: markBlind_def abortBlind_def flagBlind_def placeholderView_def
      abort_def hasContent_def isLoaded_def)

lemma flag_blinds [simp]: "markBlind isSelected" "abortBlind isSelected" "abortBlind isVisible"
  by (simp_all add: markBlind_def abortBlind_def abort_def)





section \<open>Configuration\<close>

text \<open>
  C9: in every call of \<open>setOptions\<close> a maxZoom (minZoom) that is not a finite number is
  ignored: the call returns a state (it raises nothing) whose internal bound is the one
  it had; a finite maxZoom sets the bound to its floor and a finite minZoom to its
  ceiling.
\<close>

theorem setOptions_zoom_bounds:
  "(\<not> isFinite (maxZoom new_opts) \<longrightarrow> priv_maxZoom (setOptions new_opts s) = priv_maxZoom s) \<and>
   (\<not> isFinite (minZoom new_opts) \<longrightarrow> priv_minZoom (setOptions new_opts s) = priv_minZoom s) \<and>
   (\<forall>r. maxZoom new_opts = Some (Num r) \<longrightarrow> priv_maxZoom (setOptions new_opts s) = Some \<lfloor>r\<rfloor>) \<and>
   (\<forall>r. minZoom new_opts = Some (Num r) \<longrightarrow> priv_minZoom (setOptions new_opts s) = Some \<lceil>r\<rceil>)"
  by (auto simp: setOptions_def Let_def split: option.splits jsnumber.splits)

theorem setOptions_zoom_bounds_witness:
  "\<not> isFinite (maxZoom badZoomProps) \<and>
   priv_maxZoom (setOptions badZoomProps zoomedTileset) = priv_maxZoom zoomedTileset \<and>
   priv_maxZoom zoomedTileset = Some 7 \<and>
   minZoom badZoomProps = Some (Num (5 / 2)) \<and>
   priv_minZoom (setOptions badZoomProps zoomedTileset) = Some 3"
proof -
  have a: "\<not> isFinite (maxZoom badZoomProps)" "minZoom badZoomProps = Some (Num (5 / 2))"
    by (simp_all add: badZoomProps_def defaultProps_def)
  have b: "priv_maxZoom zoomedTileset = Some 7"
    by (simp add: zoomedTileset_def setOptions_def defaultProps_def newTileset2D_def)
  have c: "\<lceil>5 / 2 :: real\<rceil> = 3" by linarith
  have "priv_maxZoom (setOptions badZoomProps zoomedTileset) = priv_maxZoom zoomedTileset"
    using setOptions_zoom_bounds[of badZoomProps zoomedTileset] a by blast
  moreover have "priv_minZoom (setOptions badZoomProps zoomedTileset) = Some \<lceil>5 / 2 :: real\<rceil>"
    using setOptions_zoom_bounds[of badZoomProps zoomedTileset] a by blast
  ultimately show ?thesis using a b c by simp
qed

section \<open>Reloading\<close>

text \<open>
  C10: \<open>reloadAll\<close> keeps exactly the cache entries of the tiles in the selection, in
  their order. A tile outside the selection loses its entry while the log of
  \<open>onTileUnload\<close> calls stays as it is and the tile itself is untouched (its load is not
  aborted); a cached tile of the selection keeps its entry and gets \<open>needs_reload\<close>; with
  no selection the cache ends empty. The keys of the cache are distinct, as those of a
  \<^verbatim>\<open>Map\<close> are.
\<close>

theorem reloadAll_spec:
  assumes "distinct (map fst (cache s))"
  shows "cache (reloadAll s) = filter (\<lambda>e. inSelection s (snd e)) (cache s) \<and>
         unloadLog (reloadAll s) = unloadLog s \<and>
         selectedTiles (reloadAll s) = selectedTiles s \<and>
         (\<forall>a. \<not> inSelection s a \<longrightarrow> heap (reloadAll s) a = heap s a) \<and>
         (\<forall>e \<in> set (cache s). inSelection s (snd e) \<longrightarrow>
            e \<in> set (cache (reloadAll s)) \<and> heap (reloadAll s) (snd e) = setNeedsReload (heap s (snd e))) \<and>
         (selectedTiles s = None \<longrightarrow> cache (reloadAll s) = [])"
proof -
  have key: "(fst e \<notin> fst ` {d \<in> set (cache s). \<not> inSelection s (snd d)}) = inSelection s (snd e)"
    if e: "e \<in> set (cache s)" for e
  proof
    assume "fst e \<notin> fst ` {d \<in> set (cache s). \<not> inSelection s (snd d)}"
    then show "inSelection s (snd e)" using e by blast
  next
    assume sel: "inSelection s (snd e)"
    show "fst e \<notin> fst ` {d \<in> set (cache s). \<not> inSelection s (snd d)}"
    proof
      assume "fst e \<in> fst ` {d \<in> set (cache s). \<not> inSelection s (snd d)}"
      then obtain v where v: "(fst e, v) \<in> set (cache s)" "\<not> inSelection s v"
        by force
      have "(fst e, snd e) \<in> set (cache s)" using e by simp
      then have "v = snd e"
        using eq_key_imp_eq_value[OF assms v(1)] by simp
      then show False using v sel by simp
    qed
  qed
  have c: "cache (reloadAll s) = filter (\<lambda>e. inSelection s (snd e)) (cache s)"
    unfolding reloadAll_def reloadLoop_cache using key by (intro filter_cong) auto
  have h1: "\<forall>a. \<not> inSelection s a \<longrightarrow> heap (reloadAll s) a = heap s a"
    unfolding reloadAll_def reloadLoop_heap by auto
  have h2: "\<forall>e \<in> set (cache s). inSelection s (snd e) \<longrightarrow>
            e \<in> set (cache (reloadAll s)) \<and> heap (reloadAll s) (snd e) = setNeedsReload (heap s (snd e))"
    unfolding c unfolding reloadAll_def reloadLoop_heap by (auto simp: image_iff)
  have e: "selectedTiles s = None \<longrightarrow> cache (reloadAll s) = []"
    unfolding c by (auto simp: inSelection_def)
  show ?thesis using c h1 h2 e by (simp add: reloadAll_def)
qed

theorem reloadAll_spec_witness:
  "distinct (map fst (cache twoTilesOneSelected)) \<and>
   cache twoTilesOneSelected = [(''0-0-1'', 0), (''1-0-1'', 1)] \<and>
   \<not> inSelection twoTilesOneSelected 0 \<and> inSelection twoTilesOneSelected 1 \<and>
   cache (reloadAll twoTilesOneSelected) = [(''1-0-1'', 1)] \<and>
   unloadLog (reloadAll twoTilesOneSelected) = unloadLog twoTilesOneSelected \<and>
   heap (reloadAll twoTilesOneSelected) 0 = heap twoTilesOneSelected 0 \<and>
   heap (reloadAll twoTilesOneSelected) 1 = setNeedsReload (heap twoTilesOneSelected 1)"
proof -
  let ?T = twoTilesOneSelected
  have d: "distinct (map fst (cache ?T))" by code_simp
  have c: "cache ?T = [(''0-0-1'', 0), (''1-0-1'', 1)]" by code_simp
  have s0: "\<not> inSelection ?T 0" by code_simp
  have s1: "inSelection ?T 1" by code_simp
  have m: "(''1-0-1'', 1) \<in> set (cache ?T)" by (simp add: c)
  note r = reloadAll_spec[OF d]
  have "cache (reloadAll ?T) = filter (\<lambda>e. inSelection ?T (snd e)) (cache ?T)"
    using r by blast
  then have c': "cache (reloadAll ?T) = [(''1-0-1'', 1)]"
    using s0 s1 by (simp add: c)
  have u: "unloadLog (reloadAll ?T) = unloadLog ?T" using r by blast
  have h0: "heap (reloadAll ?T) 0 = heap ?T 0" using r s0 by blast
  have "heap (reloadAll ?T) (snd (''1-0-1'', 1::nat)) = setNeedsReload (heap ?T (snd (''1-0-1'', 1::nat)))"
    using r m s1 by (metis snd_conv)
  then have h1: "heap (reloadAll ?T) 1 = setNeedsReload (heap ?T 1)" by simp
  show ?thesis using d c s0 s1 c' u h0 h1 by blast
qed

section \<open>Pruning requests\<close>

lemma length_filter_remove:
  "distinct xs \<Longrightarrow> set ys \<subseteq> set (filter P xs) \<Longrightarrow> distinct ys \<Longrightarrow>
   length (filter (\<lambda>a. P a \<and> a \<notin> set ys) xs) + length ys = length (filter P xs)"
proof -
  assume d: "distinct xs" and sub: "set ys \<subseteq> set (filter P xs)" and dy: "distinct ys"
  have "length (filter (\<lambda>a. P a \<and> a \<notin> set ys) xs) = card {a \<in> set xs. P a \<and> a \<notin> set ys}"
    using d by (simp add: distinct_length_filter Int_def conj_commute)
  moreover have "length (filter P xs) = card {a \<in> set xs. P a}"
    using d by (simp add: distinct_length_filter Int_def conj_commute)
  moreover have "length ys = card (set ys)"
    using dy by (simp add: distinct_card)
  moreover have "{a \<in> set xs. P a} = {a \<in> set xs. P a \<and> a \<notin> set ys} \<union> set ys"
    using sub by auto
  moreover have "{a \<in> set xs. P a \<and> a \<notin> set ys} \<inter> set ys = {}" by auto
  ultimately show ?thesis
    by (simp add: card_Un_disjoint)
qed

text \<open>
  C6: \<open>pruneRequests\<close> aborts a prefix of the abort candidates and changes nothing else.
  The candidates are the cached tiles, in cache order, that are loading and neither
  selected nor visible; the prefix has \<open>abortCount\<close> entries, or all candidates when
  there are fewer. With \<open>maxRequests \<le> 0\<close> nothing is aborted. With throttling on,
  afterwards the number of loading tiles is at most \<open>maxRequests\<close> or no candidate is
  left (the tiles of the cache being distinct). With \<open>maxRequests = 1\<close> and two loading
  tiles, both candidates, the earlier one is aborted and the other one is still loading.
\<close>

theorem pruneRequests_spec:
  "pruneRequests s =
     s\<lparr>heap := fold (\<lambda>t. updTile t abort) (take (abortCount s) (abortCandidates s)) (heap s)\<rparr> \<and>
   (\<forall>a \<in> set (abortCandidates s).
      isLoading (heap s a) \<and> \<not> isSelected (heap s a) \<and> \<not> isVisible (heap s a)) \<and>
   (maxRequests (opts s) \<le> 0 \<longrightarrow> pruneRequests s = s) \<and>
   (0 < maxRequests (opts s) \<and> distinct (map snd (cache s)) \<longrightarrow>
      ongoingRequestCount (pruneRequests s) \<le> maxRequests (opts s) \<or>
      abortCandidates (pruneRequests s) = []) \<and>
   (\<forall>a b. maxRequests (opts s) = 1 \<and> ongoingRequestCount s = 2 \<and>
          abortCandidates s = [a, b] \<and> a \<noteq> b \<longrightarrow>
          heap (pruneRequests s) a = abort (heap s a) \<and> \<not> isLoading (heap (pruneRequests s) a) \<and>
          isLoading (heap (pruneRequests s) b) \<and>
          (\<forall>c. c \<noteq> a \<longrightarrow> heap (pruneRequests s) c = heap s c))"
proof -
  let ?k = "abortCount s"
  let ?ab = "take ?k (abortCandidates s)"
  have eq: "pruneRequests s = s\<lparr>heap := fold (\<lambda>t. updTile t abort) ?ab (heap s)\<rparr>"
    by (simp add: pruneRequests_def abortLoop_take abortCount_def)
  have hp: "heap (pruneRequests s) b = (if b \<in> set ?ab then abort (heap s b) else heap s b)" for b
    by (simp add: eq fold_abort_apply)
  have cands: "\<forall>a \<in> set (abortCandidates s).
      isLoading (heap s a) \<and> \<not> isSelected (heap s a) \<and> \<not> isVisible (heap s a)"
    by (simp add: abortCandidates_def)
  have off: "maxRequests (opts s) \<le> 0 \<longrightarrow> pruneRequests s = s"
    by (simp add: eq abortCount_def)
  have stop: "ongoingRequestCount (pruneRequests s) \<le> maxRequests (opts s) \<or>
      abortCandidates (pruneRequests s) = []"
    if pos: "0 < maxRequests (opts s)" and d: "distinct (map snd (cache s))"
  proof (cases "?k < length (abortCandidates s)")
    case False
    then have all: "?ab = abortCandidates s" by simp
    have "abortCandidates (pruneRequests s) = []"
      unfolding abortCandidates_def filter_empty_conv
    proof
      fix a assume a: "a \<in> set (map snd (cache (pruneRequests s)))"
      show "\<not> (isLoading (heap (pruneRequests s) a) \<and> \<not> isSelected (heap (pruneRequests s) a) \<and>
               \<not> isVisible (heap (pruneRequests s) a))"
      proof (cases "a \<in> set (abortCandidates s)")
        case True
        then show ?thesis by (simp add: hp all abort_def isLoading_def)
      next
        case False
        then have "heap (pruneRequests s) a = heap s a" by (simp add: hp all)
        moreover have "a \<in> set (map snd (cache s))" using a by (simp add: eq)
        ultimately show ?thesis using False by (simp add: abortCandidates_def)
      qed
    qed
    then show ?thesis by simp
  next
    case True
    let ?vals = "map snd (cache s)"
    let ?P = "\<lambda>a. isLoading (heap s a)"
    have sub: "set ?ab \<subseteq> set (filter ?P ?vals)"
      using set_take_subset[of ?k "abortCandidates s"] by (auto simp: abortCandidates_def)
    have dab: "distinct ?ab"
      using d by (simp add: abortCandidates_def)
    have "\<And>a. isLoading (heap (pruneRequests s) a) = (?P a \<and> a \<notin> set ?ab)"
      using sub by (auto simp: hp abort_def isLoading_def)
    then have "ongoingRequestCount (pruneRequests s) =
        int (length (filter (\<lambda>a. ?P a \<and> a \<notin> set ?ab) ?vals))"
      by (simp add: ongoingRequestCount_def eq)
    moreover have "length (filter (\<lambda>a. ?P a \<and> a \<notin> set ?ab) ?vals) + length ?ab = length (filter ?P ?vals)"
      using d sub dab by (rule length_filter_remove)
    moreover have "length ?ab = ?k" using True by simp
    ultimately have "ongoingRequestCount (pruneRequests s) = ongoingRequestCount s - int ?k"
      by (simp add: ongoingRequestCount_def)
    then show ?thesis using pos by (simp add: abortCount_def)
  qed
  have two: "heap (pruneRequests s) a = abort (heap s a) \<and> \<not> isLoading (heap (pruneRequests s) a) \<and>
          isLoading (heap (pruneRequests s) b) \<and>
          (\<forall>c. c \<noteq> a \<longrightarrow> heap (pruneRequests s) c = heap s c)"
    if h: "maxRequests (opts s) = 1 \<and> ongoingRequestCount s = 2 \<and>
          abortCandidates s = [a, b] \<and> a \<noteq> b" for a b
  proof -
    have k: "?k = 1" using h by (simp add: abortCount_def)
    have ab: "?ab = [a]" using h k by simp
    have hp': "heap (pruneRequests s) c = (if c = a then abort (heap s a) else heap s c)" for c
      unfolding hp ab by simp
    have "isLoading (heap s b)" "isLoading (heap s a)" using cands h by simp_all
    then show ?thesis using h by (simp add: hp' abort_def isLoading_def)
  qed
  show ?thesis using eq cands off stop two by blast
qed

theorem pruneRequests_spec_witness:
  "maxRequests (opts throttledTileset) = 1 \<and> ongoingRequestCount throttledTileset = 2 \<and>
   abortCandidates throttledTileset = [0, 1] \<and> distinct (map snd (cache throttledTileset)) \<and>
   isLoading (heap throttledTileset 0) \<and>
   heap (pruneRequests throttledTileset) 0 = abort (heap throttledTileset 0) \<and>
   \<not> isLoading (heap (pruneRequests throttledTileset) 0) \<and>
   isLoading (heap (pruneRequests throttledTileset) 1) \<and>
   (ongoingRequestCount (pruneRequests throttledTileset) \<le> 1 \<or>
    abortCandidates (pruneRequests throttledTileset) = [])"
proof -
  have h: "maxRequests (opts throttledTileset) = 1" "ongoingRequestCount throttledTileset = 2"
      "abortCandidates throttledTileset = [0, 1]" "distinct (map snd (cache throttledTileset))"
      "isLoading (heap throttledTileset 0)"
    by code_simp+
  have n: "(0::nat) \<noteq> 1" by simp
  have pos: "0 < maxRequests (opts throttledTileset)" using h(1) by simp
  have stop: "ongoingRequestCount (pruneRequests throttledTileset) \<le> maxRequests (opts throttledTileset) \<or>
      abortCandidates (pruneRequests throttledTileset) = []"
    using pruneRequests_spec[of throttledTileset] pos h(4) by blast
  have "maxRequests (opts throttledTileset) = 1 \<and> ongoingRequestCount throttledTileset = 2 \<and>
          abortCandidates throttledTileset = [0, 1] \<and> (0::nat) \<noteq> 1 \<longrightarrow>
          heap (pruneRequests throttledTileset) 0 = abort (heap throttledTileset 0) \<and>
          \<not> isLoading (heap (pruneRequests throttledTileset) 0) \<and>
          isLoading (heap (pruneRequests throttledTileset) 1) \<and>
          (\<forall>c. c \<noteq> 0 \<longrightarrow> heap (pruneRequests throttledTileset) c = heap throttledTileset c)"
    using pruneRequests_spec[of throttledTileset] by blast
  moreover have "ongoingRequestCount (pruneRequests throttledTileset) \<le> 1 \<or>
      abortCandidates (pruneRequests throttledTileset) = []"
    using stop h(1) by simp
  ultimately show ?thesis using h n by blast
qed

section \<open>The strategy never\<close>

text \<open>
  C8: with the strategy \<^verbatim>\<open>never\<close>, after \<open>updateTileStates\<close> every tile of the cache has
  \<open>isVisible\<close> equal to \<open>isSelected\<close>, and \<open>isSelected\<close> holds exactly for the tiles of the
  current selection.
\<close>

theorem never_visible_iff_selected:
  assumes "refinementStrategy (opts s) = Some STRATEGY_NEVER"
    and "updateTileStates n s = Inr (s1, changed)"
  shows "\<forall>a \<in> set (map snd (cache s1)).
           isVisible (heap s1 a) = isSelected (heap s1 a) \<and>
           isSelected (heap s1 a) = inSelection s1 a"
proof -
  obtain sel where sel: "selectedTiles s = Some sel"
    using assms(2) by (auto simp: updateTileStates_def split: option.splits)
  have h: "heap s1 = fold selectFlags sel (fold resetFlags (map snd (cache s)) (heap s))"
    using assms sel by (auto simp: updateTileStates_def Let_def)
  have f: "s1 = s\<lparr>heap := heap s1\<rparr>" using updateTileStates_frame[OF assms(2)] .
  have c: "cache s1 = cache s" and st: "selectedTiles s1 = Some sel"
    using sel by (subst f, simp)+
  show ?thesis
    unfolding c inSelection_def st h
    by (simp add: fold_selectFlags_apply fold_resetFlags_apply)
qed

theorem never_visible_iff_selected_witness:
  "refinementStrategy (opts neverTileset) = Some STRATEGY_NEVER \<and>
   updateTileStates 0 neverTileset = Inr (projr (updateTileStates 0 neverTileset)) \<and>
   map snd (cache (fst (projr (updateTileStates 0 neverTileset)))) = [0, 1] \<and>
   \<not> inSelection (fst (projr (updateTileStates 0 neverTileset))) 0 \<and>
   \<not> isSelected (heap (fst (projr (updateTileStates 0 neverTileset))) 0) \<and>
   \<not> isVisible (heap (fst (projr (updateTileStates 0 neverTileset))) 0) \<and>
   inSelection (fst (projr (updateTileStates 0 neverTileset))) 1 \<and>
   isSelected (heap (fst (projr (updateTileStates 0 neverTileset))) 1) \<and>
   isVisible (heap (fst (projr (updateTileStates 0 neverTileset))) 1)"
proof -
  let ?r = "updateTileStates 0 neverTileset"
  let ?s = "fst (projr ?r)"
  have a: "refinementStrategy (opts neverTileset) = Some STRATEGY_NEVER" by code_simp
  have "\<not> isl ?r" by code_simp
  then have b: "?r = Inr (?s, snd (projr ?r))" by (cases ?r) simp_all
  have c: "map snd (cache ?s) = [0, 1]" by code_simp
  have d: "\<not> inSelection ?s 0" "inSelection ?s 1" by code_simp+
  have "\<forall>a \<in> set (map snd (cache ?s)).
           isVisible (heap ?s a) = isSelected (heap ?s a) \<and> isSelected (heap ?s a) = inSelection ?s a"
    using never_visible_iff_selected[OF a b] .
  then have "isVisible (heap ?s 0) = isSelected (heap ?s 0) \<and> isSelected (heap ?s 0) = inSelection ?s 0"
    and "isVisible (heap ?s 1) = isSelected (heap ?s 1) \<and> isSelected (heap ?s 1) = inSelection ?s 1"
    unfolding c by simp_all
  then show ?thesis using a b c d by simp
qed

section \<open>Best available\<close>




section \<open>Eviction\<close>




section \<open>Cache limits\<close>

text \<open>
  C2, as amended: after an \<open>update\<close> that found the cache dirty or created a tile (so that
  it ran \<open>resizeCache\<close>), either the number of cached tiles is at most the effective item
  limit and the byte total is at most the byte limit, or every tile left in the cache is
  visible.
\<close>

theorem update_limits_or_all_visible:
  assumes "update n gen vp zr mm s = Inr (s1, k)"
    and "dirty s \<or> nextAddr s \<noteq> nextAddr s1"
  shows "cacheWithinLimits s1 \<or> (\<forall>a \<in> snd ` set (cache s1). isVisible (heap s1 a))"
  using assms(1)
proof (cases rule: update_steps)
  case (1 sA osel sel sB changed sD)
  have fB: "sB = (sA\<lparr>selectedTiles := Some sel\<rparr>)\<lparr>heap := heap sB\<rparr>"
    using updateTileStates_frame[OF 1(3)] .
  have nB: "nextAddr sB = nextAddr sA" and dB: "dirty sB = dirty sA"
    by (subst fB, simp)+
  have nD: "nextAddr sD = nextAddr sA"
    using 1(4) resizeCache_nextAddr[of "pruneRequests sB" sD] nB by (auto split: if_splits)
  have n1: "nextAddr s1 = nextAddr sA" using 1(5) nD by (auto split: if_splits)
  have "dirty sA" using updateSelection_dirty[OF 1(1)] assms(2) n1 by simp
  then have r: "resizeCache (pruneRequests sB) = Inr sD" using 1(4) dB by simp
  have "cacheWithinLimits sD \<or> (\<forall>a \<in> snd ` set (cache sD). isVisible (heap sD a))"
    using resizeCache_limits_or_visible[OF r] .
  moreover have "cacheWithinLimits s1 = cacheWithinLimits sD" "cache s1 = cache sD" "heap s1 = heap sD"
    using 1(5) by (auto simp: cacheWithinLimits_def withinLimits_def split: if_splits)
  ultimately show ?thesis by simp
qed

theorem update_limits_or_all_visible_witness:
  "update 5 genPair 1 None None (newTileset2D tightNeverProps) = Inr (stateOf tightNeverRun, 1) \<and>
   nextAddr (newTileset2D tightNeverProps) \<noteq> nextAddr (stateOf tightNeverRun) \<and>
   map snd (cache (stateOf tightNeverRun)) = [0, 1] \<and>
   \<not> cacheWithinLimits (stateOf tightNeverRun) \<and>
   isVisible (heap (stateOf tightNeverRun) 0) \<and> isVisible (heap (stateOf tightNeverRun) 1)"
proof -
  let ?s1 = "stateOf tightNeverRun"
  have "\<not> isl tightNeverRun" by code_simp
  moreover have "snd (projr tightNeverRun) = 1" by code_simp
  ultimately have "tightNeverRun = Inr (?s1, 1)"
    using stateOf_run[of tightNeverRun] by simp
  then have run: "update 5 genPair 1 None None (newTileset2D tightNeverProps) = Inr (?s1, 1)"
    by (simp add: tightNeverRun_def)
  have n: "nextAddr (newTileset2D tightNeverProps) \<noteq> nextAddr ?s1" by code_simp
  have c: "map snd (cache ?s1) = [0, 1]" by code_simp
  have w: "\<not> cacheWithinLimits ?s1" by code_simp
  have "cacheWithinLimits ?s1 \<or> (\<forall>a \<in> snd ` set (cache ?s1). isVisible (heap ?s1 a))"
    using update_limits_or_all_visible[OF run] n by blast
  then have "\<forall>a \<in> set (map snd (cache ?s1)). isVisible (heap ?s1 a)" using w by simp
  then have "isVisible (heap ?s1 0)" "isVisible (heap ?s1 1)" unfolding c by simp_all
  then show ?thesis using run n c w by blast
qed

text \<open>
  C2 as stated fails: with \<open>maxCacheSize = 1\<close> and the strategy \<^verbatim>\<open>never\<close>, an update that
  selects two tiles ends with two visible tiles in the cache.
\<close>

theorem limits_exceeded_after_update:
  "\<not> isl tightNeverRun \<and>
   length (cache (stateOf tightNeverRun)) = 2 \<and>
   effMaxCacheSize (opts (stateOf tightNeverRun))
     (length (the (selectedTiles (stateOf tightNeverRun)))) = enat 1 \<and>
   \<not> cacheWithinLimits (stateOf tightNeverRun)"
  by code_simp

section \<open>The tree after an update\<close>

text \<open>
  C1, as amended: after any \<open>update\<close> call that completes, in any state the tileset can
  reach, every cached tile \<open>t\<close> whose parent link is set to a tile \<open>p\<close> has a zoom above
  the zoom of \<open>p\<close> and is an element of the children of \<open>p\<close>.
\<close>

theorem update_tree_linked:
  assumes "reachable s" "update n gen vp zr mm s = Inr (s1, k)"
  shows "treeLinked s1"
  using update_consistent[OF reachable_consistent[OF assms(1)] assms(2)]
  by (simp add: consistent_def)

theorem update_tree_linked_witness:
  "reachable levelZeroTileset \<and>
   update 5 genLevels 2 None None levelZeroTileset = Inr (stateOf levelTwoRun, 0) \<and>
   map snd (cache (stateOf levelTwoRun)) = [0, 1] \<and>
   parent (heap (stateOf levelTwoRun) 1) = Some 0 \<and>
   zoom (heap (stateOf levelTwoRun) 0) < zoom (heap (stateOf levelTwoRun) 1) \<and>
   1 \<in> set (children (heap (stateOf levelTwoRun) 0))"
proof -
  let ?r1 = "update 5 genLevels 1 None None (newTileset2D defaultProps)"
  have "\<not> isl ?r1" by code_simp
  then have "?r1 = Inr (levelZeroTileset, snd (projr ?r1))"
    using stateOf_run[of ?r1] by (simp add: levelZeroTileset_def)
  then have r: "reachable levelZeroTileset"
    using reachable.update[OF reachable.created] by blast
  have "\<not> isl levelTwoRun" by code_simp
  moreover have "snd (projr levelTwoRun) = 0" by code_simp
  ultimately have "levelTwoRun = Inr (stateOf levelTwoRun, 0)"
    using stateOf_run[of levelTwoRun] by simp
  then have run: "update 5 genLevels 2 None None levelZeroTileset = Inr (stateOf levelTwoRun, 0)"
    by (simp add: levelTwoRun_def)
  have c: "map snd (cache (stateOf levelTwoRun)) = [0, 1]" by code_simp
  have p: "parent (heap (stateOf levelTwoRun) 1) = Some 0" by code_simp
  have "treeLinked (stateOf levelTwoRun)" using update_tree_linked[OF r run] .
  moreover have "1 \<in> snd ` set (cache (stateOf levelTwoRun))"
    using c by (metis image_set list.set_intros(1,2))
  ultimately have "zoom (heap (stateOf levelTwoRun) 0) < zoom (heap (stateOf levelTwoRun) 1) \<and>
      1 \<in> set (children (heap (stateOf levelTwoRun) 0))"
    using p unfolding treeLinked_def by blast
  then show ?thesis using r run c p by blast
qed

text \<open>
  C1 as stated fails: after a tile of level 0 and then a tile of level 2 were selected,
  the parent of the second is the first, two levels up.
\<close>

theorem parent_two_levels_up:
  "\<not> isl levelTwoRun \<and>
   map snd (cache (stateOf levelTwoRun)) = [0, 1] \<and>
   parent (heap (stateOf levelTwoRun) 1) = Some 0 \<and>
   zoom (heap (stateOf levelTwoRun) 1) = 2 \<and>
   zoom (heap (stateOf levelTwoRun) 0) = 0 \<and>
   zoom (heap (stateOf levelTwoRun) 0) \<noteq> zoom (heap (stateOf levelTwoRun) 1) - 1"
  by code_simp

section \<open>Two updates in a row\<close>




end
